theory Spec2Isabelle
  imports Complex_Main "HOL-Library.Sublist"
begin

section \<open>Market-data simulation and charting engine\<close>

text \<open>
  A shallow embedding of the candle aggregator and tick generator of the application
  component (\<^verbatim>\<open>tickCandles\<close>, the \<^verbatim>\<open>TICK\<close> branch of \<^verbatim>\<open>appReducer\<close>) and of the
  indicator library, viewport and coordinate transforms of \<^verbatim>\<open>CandleChart.tsx\<close>.

  Numbers. A JavaScript number is an IEEE binary64 value. Three embeddings are used,
  each where it is exact:
  \<^item> Candle prices are only copied and compared (\<^verbatim>\<open>Math.max\<close>, \<^verbatim>\<open>Math.min\<close>,
    \<^verbatim>\<open>===\<close>) by the aggregator, so a finite price is a \<open>real\<close>. Timestamps are
    integer milliseconds (\<^verbatim>\<open>Date.now()\<close>) and periods are integer seconds, both far
    below \<open>2^53\<close>, where \<^verbatim>\<open>Math.floor(now / pMs) * pMs\<close> is the integer
    \<open>(now div pMs) * pMs\<close>; they are \<open>int\<close>.
  \<^item> The indicator functions, the tick generator and the coordinate transforms
    multiply and divide, and can meet \<^verbatim>\<open>NaN\<close> and the infinities. They work on
    \<open>jsnum\<close>: a finite value, \<^verbatim>\<open>Infinity\<close>, \<^verbatim>\<open>-Infinity\<close> or \<^verbatim>\<open>NaN\<close>. Every
    arithmetic operation is the exact operation followed by a rounding function \<open>rnd\<close>
    (a parameter: the identity gives exact arithmetic, round-to-nearest gives binary64)
    and by the overflow test against the largest binary64 value. The two zeros are
    identified; in these functions no divisor can be the negative zero, which is the
    only place where they differ.
  \<^item> The viewport and the layout of the chart work on integers (candle counts and
    pixels), on which binary64 arithmetic is exact.
\<close>

subsection \<open>JavaScript numbers\<close>

datatype jsnum = Fin real | PInf | NInf | NaN

text \<open>\<^verbatim>\<open>Number.MAX_VALUE\<close>: \<open>(2^53 - 1) * 2^971\<close>.\<close>

definition MAX_VALUE :: real where
  "MAX_VALUE = 2 ^ 1024 - 2 ^ 971"

text \<open>The result of an operation whose exact value is \<open>x\<close>: rounded, then overflowed.\<close>

definition fin :: "(real \<Rightarrow> real) \<Rightarrow> real \<Rightarrow> jsnum" where
  "fin rnd x =
     (let y = rnd x
      in if MAX_VALUE < y then PInf else if y < - MAX_VALUE then NInf else Fin y)"

text \<open>
  What is asked of a rounding function: it is monotone and leaves every binary64 value
  (an integer of at most 53 bits times a power of two that is at least \<open>2^-1074\<close>)
  unchanged. Round-to-nearest has both properties, and so has the identity.
\<close>

definition rounding :: "(real \<Rightarrow> real) \<Rightarrow> bool" where
  "rounding rnd \<longleftrightarrow>
     mono rnd \<and>
     (\<forall>m e. \<bar>m\<bar> \<le> 2 ^ 53 \<and> - 1074 \<le> e \<longrightarrow>
        rnd (real_of_int m * 2 powi e) = real_of_int m * 2 powi e)"

text \<open>
  How far a rounded value is from the exact one: round-to-nearest moves a value by at
  most half a unit in the last place, which is a relative error of at most \<open>2^-53\<close>
  where the result is normal and an absolute error of at most \<open>2^-1075\<close> where it is
  subnormal. The identity is accurate as well.
\<close>

definition accurate :: "(real \<Rightarrow> real) \<Rightarrow> bool" where
  "accurate rnd \<longleftrightarrow> (\<forall>x. \<bar>rnd x - x\<bar> \<le> \<bar>x\<bar> / 2 ^ 53 + 1 / 2 ^ 1075)"

fun jneg :: "jsnum \<Rightarrow> jsnum" where
  "jneg (Fin a) = Fin (- a)"
| "jneg PInf = NInf"
| "jneg NInf = PInf"
| "jneg NaN = NaN"

fun jadd :: "(real \<Rightarrow> real) \<Rightarrow> jsnum \<Rightarrow> jsnum \<Rightarrow> jsnum" where
  "jadd rnd (Fin a) (Fin b) = fin rnd (a + b)"
| "jadd rnd (Fin a) PInf = PInf"
| "jadd rnd (Fin a) NInf = NInf"
| "jadd rnd (Fin a) NaN = NaN"
| "jadd rnd PInf (Fin b) = PInf"
| "jadd rnd PInf PInf = PInf"
| "jadd rnd PInf NInf = NaN"
| "jadd rnd PInf NaN = NaN"
| "jadd rnd NInf (Fin b) = NInf"
| "jadd rnd NInf PInf = NaN"
| "jadd rnd NInf NInf = NInf"
| "jadd rnd NInf NaN = NaN"
| "jadd rnd NaN y = NaN"

definition jsub :: "(real \<Rightarrow> real) \<Rightarrow> jsnum \<Rightarrow> jsnum \<Rightarrow> jsnum" where
  "jsub rnd x y = jadd rnd x (jneg y)"

fun jmul :: "(real \<Rightarrow> real) \<Rightarrow> jsnum \<Rightarrow> jsnum \<Rightarrow> jsnum" where
  "jmul rnd (Fin a) (Fin b) = fin rnd (a * b)"
| "jmul rnd (Fin a) PInf = (if a = 0 then NaN else if 0 < a then PInf else NInf)"
| "jmul rnd (Fin a) NInf = (if a = 0 then NaN else if 0 < a then NInf else PInf)"
| "jmul rnd (Fin a) NaN = NaN"
| "jmul rnd PInf (Fin b) = (if b = 0 then NaN else if 0 < b then PInf else NInf)"
| "jmul rnd PInf PInf = PInf"
| "jmul rnd PInf NInf = NInf"
| "jmul rnd PInf NaN = NaN"
| "jmul rnd NInf (Fin b) = (if b = 0 then NaN else if 0 < b then NInf else PInf)"
| "jmul rnd NInf PInf = NInf"
| "jmul rnd NInf NInf = PInf"
| "jmul rnd NInf NaN = NaN"
| "jmul rnd NaN y = NaN"

fun jdiv :: "(real \<Rightarrow> real) \<Rightarrow> jsnum \<Rightarrow> jsnum \<Rightarrow> jsnum" where
  "jdiv rnd (Fin a) (Fin b) =
     (if b = 0 then (if a = 0 then NaN else if 0 < a then PInf else NInf)
      else fin rnd (a / b))"
| "jdiv rnd (Fin a) PInf = Fin 0"
| "jdiv rnd (Fin a) NInf = Fin 0"
| "jdiv rnd (Fin a) NaN = NaN"
| "jdiv rnd PInf (Fin b) = (if 0 \<le> b then PInf else NInf)"
| "jdiv rnd PInf PInf = NaN"
| "jdiv rnd PInf NInf = NaN"
| "jdiv rnd PInf NaN = NaN"
| "jdiv rnd NInf (Fin b) = (if 0 \<le> b then NInf else PInf)"
| "jdiv rnd NInf PInf = NaN"
| "jdiv rnd NInf NInf = NaN"
| "jdiv rnd NInf NaN = NaN"
| "jdiv rnd NaN y = NaN"

text \<open>\<^verbatim>\<open>Math.abs\<close>, \<^verbatim>\<open>Math.sqrt\<close> and \<^verbatim>\<open>x ** 2\<close> (the rounded product of \<open>x\<close> with itself).\<close>

fun jabs :: "jsnum \<Rightarrow> jsnum" where
  "jabs (Fin a) = Fin \<bar>a\<bar>"
| "jabs PInf = PInf"
| "jabs NInf = PInf"
| "jabs NaN = NaN"

fun jsqrt :: "(real \<Rightarrow> real) \<Rightarrow> jsnum \<Rightarrow> jsnum" where
  "jsqrt rnd (Fin a) = (if a < 0 then NaN else fin rnd (sqrt a))"
| "jsqrt rnd PInf = PInf"
| "jsqrt rnd NInf = NaN"
| "jsqrt rnd NaN = NaN"

definition jpow2 :: "(real \<Rightarrow> real) \<Rightarrow> jsnum \<Rightarrow> jsnum" where
  "jpow2 rnd x = jmul rnd x x"

text \<open>The comparisons \<^verbatim>\<open><\<close>, \<^verbatim>\<open><=\<close> and \<^verbatim>\<open>===\<close>: every comparison with \<^verbatim>\<open>NaN\<close> is false.\<close>

fun jlt :: "jsnum \<Rightarrow> jsnum \<Rightarrow> bool" where
  "jlt (Fin a) (Fin b) = (a < b)"
| "jlt (Fin a) PInf = True"
| "jlt (Fin a) NInf = False"
| "jlt (Fin a) NaN = False"
| "jlt PInf y = False"
| "jlt NInf (Fin b) = True"
| "jlt NInf PInf = True"
| "jlt NInf NInf = False"
| "jlt NInf NaN = False"
| "jlt NaN y = False"

fun jeq :: "jsnum \<Rightarrow> jsnum \<Rightarrow> bool" where
  "jeq NaN y = False"
| "jeq x y = (x = y)"

definition jle :: "jsnum \<Rightarrow> jsnum \<Rightarrow> bool" where
  "jle x y = (jlt x y \<or> jeq x y)"

text \<open>
  \<^verbatim>\<open>Math.max\<close> and \<^verbatim>\<open>Math.min\<close>: of two numbers, and of a list spread into the
  arguments (\<^verbatim>\<open>-Infinity\<close> and \<^verbatim>\<open>Infinity\<close> on no argument, \<^verbatim>\<open>NaN\<close> as soon as one
  argument is \<^verbatim>\<open>NaN\<close>).
\<close>

fun jmax :: "jsnum \<Rightarrow> jsnum \<Rightarrow> jsnum" where
  "jmax NaN y = NaN"
| "jmax x NaN = NaN"
| "jmax x y = (if jlt x y then y else x)"

fun jmin :: "jsnum \<Rightarrow> jsnum \<Rightarrow> jsnum" where
  "jmin NaN y = NaN"
| "jmin x NaN = NaN"
| "jmin x y = (if jlt y x then y else x)"

definition Math_max :: "jsnum list \<Rightarrow> jsnum" where
  "Math_max xs = foldl jmax NInf xs"

definition Math_min :: "jsnum list \<Rightarrow> jsnum" where
  "Math_min xs = foldl jmin PInf xs"

fun isFinite :: "jsnum \<Rightarrow> bool" where
  "isFinite (Fin a) = True"
| "isFinite PInf = False"
| "isFinite NInf = False"
| "isFinite NaN = False"

text \<open>
  \<^verbatim>\<open>data[j]\<close> on a \<^verbatim>\<open>number[]\<close>: an index outside the array reads \<^verbatim>\<open>undefined\<close>, which
  every arithmetic operation and comparison of these functions treats as \<^verbatim>\<open>NaN\<close>.
\<close>

definition js_nth :: "jsnum list \<Rightarrow> int \<Rightarrow> jsnum" where
  "js_nth xs j = (if 0 \<le> j \<and> j < int (length xs) then xs ! nat j else NaN)"

subsection \<open>Candle aggregator\<close>

record candle =
  time :: int
  open' :: real
  high :: real
  low :: real
  close :: real

text \<open>
  \<^verbatim>\<open>tickCandles(candles, periodSec, newPrice, now)\<close>. \<open>tick_update\<close> is the array
  \<^verbatim>\<open>arr\<close> after the \<^verbatim>\<open>if\<close>/\<^verbatim>\<open>else\<close>, and \<open>trim500\<close> the final
  \<^verbatim>\<open>arr.length > 500 ? arr.slice(-500) : arr\<close>. \<^verbatim>\<open>last\<close> is \<^verbatim>\<open>undefined\<close> (falsy) on the
  empty array. The period is not zero (a zero period makes the bucket \<^verbatim>\<open>NaN\<close>).
\<close>

definition bucket_of :: "int \<Rightarrow> int \<Rightarrow> int" where
  "bucket_of periodSec now = (let pMs = periodSec * 1000 in (now div pMs) * pMs)"

definition tick_update :: "candle list \<Rightarrow> int \<Rightarrow> real \<Rightarrow> int \<Rightarrow> candle list" where
  "tick_update candles periodSec newPrice now =
     (let bucket = bucket_of periodSec now;
          arr = candles
      in case (if arr = [] then None else Some (last arr)) of
           None \<Rightarrow>
             arr @ [\<lparr>time = bucket, open' = newPrice, high = newPrice, low = newPrice,
                     close = newPrice\<rparr>]
         | Some lst \<Rightarrow>
             if time lst = bucket
             then arr[length arr - 1 :=
                    lst\<lparr>close := newPrice, high := max (high lst) newPrice,
                        low := min (low lst) newPrice\<rparr>]
             else arr @ [\<lparr>time = bucket, open' = close lst, high = newPrice, low = newPrice,
                          close = newPrice\<rparr>])"

definition trim500 :: "'a list \<Rightarrow> 'a list" where
  "trim500 arr = (if length arr > 500 then drop (length arr - 500) arr else arr)"

definition tickCandles :: "candle list \<Rightarrow> int \<Rightarrow> real \<Rightarrow> int \<Rightarrow> candle list" where
  "tickCandles candles periodSec newPrice now =
     trim500 (tick_update candles periodSec newPrice now)"

text \<open>
  Repeated aggregation: the \<^verbatim>\<open>TICK\<close> reducer calls \<^verbatim>\<open>tickCandles\<close> on the stored series
  of a timeframe once per tick. A tick is a price and a timestamp.
\<close>

fun run_ticks :: "candle list \<Rightarrow> int \<Rightarrow> (real \<times> int) list \<Rightarrow> candle list" where
  "run_ticks candles periodSec [] = candles"
| "run_ticks candles periodSec ((price, now) # ticks) =
     run_ticks (tickCandles candles periodSec price now) periodSec ticks"

text \<open>
  The times of the candles that \<^verbatim>\<open>seedCandles(basePrice, periodSec, count)\<close> makes when
  \<^verbatim>\<open>Date.now()\<close> is \<open>now\<close>: \<^verbatim>\<open>Math.floor((now - i * pMs) / pMs) * pMs\<close> for \<open>i\<close> from
  \<open>count\<close> down to 1. (Their prices are drawn with \<^verbatim>\<open>Math.random\<close>.)
\<close>

definition seed_times :: "int \<Rightarrow> int \<Rightarrow> nat \<Rightarrow> int list" where
  "seed_times periodSec now count =
     (let pMs = periodSec * 1000
      in map (\<lambda>i. ((now - int i * pMs) div pMs) * pMs) (rev [1..<Suc count]))"

text \<open>The candle invariant of the specification, and the part of it about the close.\<close>

definition ohlc_ok :: "candle \<Rightarrow> bool" where
  "ohlc_ok c \<longleftrightarrow> low c \<le> min (open' c) (close c) \<and> max (open' c) (close c) \<le> high c"

definition close_in_range :: "candle \<Rightarrow> bool" where
  "close_in_range c \<longleftrightarrow> low c \<le> close c \<and> close c \<le> high c"

text \<open>
  Consecutive values exactly \<open>step\<close> apart (no gap), and consecutive timestamps at most
  \<open>step\<close> apart.
\<close>

fun gapless :: "int \<Rightarrow> int list \<Rightarrow> bool" where
  "gapless step (a # b # rest) = (b = a + step \<and> gapless step (b # rest))"
| "gapless step [a] = True"
| "gapless step [] = True"

fun close_ticks :: "int \<Rightarrow> int list \<Rightarrow> bool" where
  "close_ticks step (a # b # rest) = (b - a \<le> step \<and> close_ticks step (b # rest))"
| "close_ticks step [a] = True"
| "close_ticks step [] = True"

text \<open>The description of one aggregator step in the words of the specification (4.2).\<close>

definition append_spec :: "candle list \<Rightarrow> int \<Rightarrow> real \<Rightarrow> int \<Rightarrow> candle list" where
  "append_spec series periodSec price timestamp =
     (let periodMs = periodSec * 1000;
          bucket = (timestamp div periodMs) * periodMs
      in if series \<noteq> [] \<and> time (last series) = bucket
         then butlast series @
              [\<lparr>time = time (last series), open' = open' (last series),
                high = max (high (last series)) price, low = min (low (last series)) price,
                close = price\<rparr>]
         else series @
              [\<lparr>time = bucket, open' = (if series = [] then price else close (last series)),
                high = price, low = price, close = price\<rparr>])"

text \<open>A time is an exact multiple of the period in milliseconds.\<close>

definition aligned :: "int \<Rightarrow> int list \<Rightarrow> bool" where
  "aligned pMs ts \<longleftrightarrow> list_all (\<lambda>t. t mod pMs = 0) ts"

text \<open>A full series of 500 one-minute candles (the length the application seeds).\<close>

definition series500 :: "candle list" where
  "series500 =
     map (\<lambda>i. \<lparr>time = int i * 60000, open' = 100, high = 100, low = 100, close = 100\<rparr>)
       [0..<500]"

subsection \<open>Tick generator\<close>

text \<open>
  The price step of the \<^verbatim>\<open>TICK\<close> branch of \<^verbatim>\<open>appReducer\<close>, for one asset:
  \<^verbatim>\<open>shock = (Math.random() - 0.5) * 2 * 0.0008\<close>,
  \<^verbatim>\<open>nextPrice = prev.price * (1 + shock)\<close>, and the guard
  \<^verbatim>\<open>if (!Number.isFinite(nextPrice) || nextPrice <= 0) nextPrice = prev.price\<close>.
  The value of \<^verbatim>\<open>Math.random()\<close> is the argument \<open>r\<close>. The literal \<^verbatim>\<open>0.0008\<close> is not a
  binary64 value and denotes its rounding.
\<close>

definition guardPrice :: "jsnum \<Rightarrow> jsnum \<Rightarrow> jsnum" where
  "guardPrice prevPrice nextPrice =
     (if \<not> isFinite nextPrice \<or> jle nextPrice (Fin 0) then prevPrice else nextPrice)"

definition tickPrice :: "(real \<Rightarrow> real) \<Rightarrow> jsnum \<Rightarrow> jsnum \<Rightarrow> jsnum" where
  "tickPrice rnd prevPrice r =
     (let shock = jmul rnd (jmul rnd (jsub rnd r (Fin (1 / 2))) (Fin 2)) (Fin (rnd (8 / 10000)));
          nextPrice = jmul rnd prevPrice (jadd rnd (Fin 1) shock)
      in guardPrice prevPrice nextPrice)"

subsection \<open>Indicator library\<close>

text \<open>
  The functions return \<^verbatim>\<open>(number | null)[]\<close>: \<open>None\<close> is the sentinel \<^verbatim>\<open>null\<close>. The period
  is an integer (the callers pass 20, 12 and 14), the indices are integers. None of the
  functions has a \<^verbatim>\<open>throw\<close>, and no operation in them can raise: an array read out of
  range gives \<^verbatim>\<open>undefined\<close>, and arithmetic never fails. So the model has no error value.

  \<open>sum_window\<close> is the inner loop \<^verbatim>\<open>let s = 0; for (j = lo; j <= hi; j++) s += data[j]\<close>.
\<close>

definition sum_window :: "(real \<Rightarrow> real) \<Rightarrow> jsnum list \<Rightarrow> int \<Rightarrow> int \<Rightarrow> jsnum" where
  "sum_window rnd data lo hi' = foldl (\<lambda>s j. jadd rnd s (js_nth data j)) (Fin 0) [lo..hi']"

definition calcSMA :: "(real \<Rightarrow> real) \<Rightarrow> jsnum list \<Rightarrow> int \<Rightarrow> jsnum option list" where
  "calcSMA rnd data period =
     map (\<lambda>i. if i < period - 1 then None
              else Some (jdiv rnd (sum_window rnd data (i - period + 1) i)
                           (Fin (real_of_int period))))
       [0..int (length data) - 1]"

text \<open>\<^verbatim>\<open>calcEMA\<close>: the loop carries \<^verbatim>\<open>ema\<close>, \<^verbatim>\<open>null\<close> until the first value is seeded.\<close>

fun ema_loop ::
  "(real \<Rightarrow> real) \<Rightarrow> jsnum list \<Rightarrow> int \<Rightarrow> jsnum \<Rightarrow> jsnum option \<Rightarrow> int list \<Rightarrow> jsnum option list"
where
  "ema_loop rnd data period k ema [] = []"
| "ema_loop rnd data period k ema (i # rest) =
     (if i < period - 1 then None # ema_loop rnd data period k ema rest
      else
        let ema' =
          (case ema of
             None \<Rightarrow>
               jdiv rnd (sum_window rnd data (i - period + 1) i) (Fin (real_of_int period))
           | Some e \<Rightarrow>
               jadd rnd (jmul rnd (js_nth data i) k) (jmul rnd e (jsub rnd (Fin 1) k)))
        in Some ema' # ema_loop rnd data period k (Some ema') rest)"

definition calcEMA :: "(real \<Rightarrow> real) \<Rightarrow> jsnum list \<Rightarrow> int \<Rightarrow> jsnum option list" where
  "calcEMA rnd data period =
     ema_loop rnd data period (jdiv rnd (Fin 2) (Fin (real_of_int (period + 1)))) None
       [0..int (length data) - 1]"

text \<open>\<^verbatim>\<open>calcBollinger\<close> returns the three series \<^verbatim>\<open>{ mid, upper, lower }\<close>.\<close>

record bollinger =
  mid :: "jsnum option list"
  upper :: "jsnum option list"
  lower :: "jsnum option list"

definition boll_std :: "(real \<Rightarrow> real) \<Rightarrow> jsnum list \<Rightarrow> int \<Rightarrow> jsnum \<Rightarrow> int \<Rightarrow> jsnum" where
  "boll_std rnd data period m i =
     (let v = foldl (\<lambda>v j. jadd rnd v (jpow2 rnd (jsub rnd (js_nth data j) m))) (Fin 0)
                [i - period + 1..i]
      in jsqrt rnd (jdiv rnd v (Fin (real_of_int period))))"

definition calcBollinger ::
  "(real \<Rightarrow> real) \<Rightarrow> jsnum list \<Rightarrow> int \<Rightarrow> jsnum \<Rightarrow> bollinger"
where
  "calcBollinger rnd data period mult =
     (let mid = calcSMA rnd data period
      in \<lparr>mid = mid,
          upper = map (\<lambda>i. case mid ! nat i of
                             None \<Rightarrow> None
                           | Some m \<Rightarrow>
                               Some (jadd rnd m (jmul rnd mult (boll_std rnd data period m i))))
                    [0..int (length data) - 1],
          lower = map (\<lambda>i. case mid ! nat i of
                             None \<Rightarrow> None
                           | Some m \<Rightarrow>
                               Some (jsub rnd m (jmul rnd mult (boll_std rnd data period m i))))
                    [0..int (length data) - 1]\<rparr>)"

text \<open>
  \<^verbatim>\<open>calcRSI\<close>. \<open>rsi_value\<close> is the expression both pushing branches share:
  \<^verbatim>\<open>const rs = al === 0 ? 100 : ag / al; r.push(100 - 100 / (1 + rs))\<close>.
  \<open>rsi_seed\<close> is one iteration of the first loop (over \<^verbatim>\<open>i = 1 .. period\<close>),
  \<open>rsi_loop\<close> the second loop, which carries \<^verbatim>\<open>ag\<close> and \<^verbatim>\<open>al\<close>.
\<close>

definition rsi_value :: "(real \<Rightarrow> real) \<Rightarrow> jsnum \<Rightarrow> jsnum \<Rightarrow> jsnum" where
  "rsi_value rnd ag al =
     (let rs = (if jeq al (Fin 0) then Fin 100 else jdiv rnd ag al)
      in jsub rnd (Fin 100) (jdiv rnd (Fin 100) (jadd rnd (Fin 1) rs)))"

definition rsi_seed ::
  "(real \<Rightarrow> real) \<Rightarrow> jsnum list \<Rightarrow> jsnum \<times> jsnum \<Rightarrow> int \<Rightarrow> jsnum \<times> jsnum"
where
  "rsi_seed rnd data acc i =
     (let d = jsub rnd (js_nth data i) (js_nth data (i - 1))
      in if jlt (Fin 0) d then (jadd rnd (fst acc) d, snd acc)
         else (fst acc, jadd rnd (snd acc) (jabs d)))"

definition rsi_smooth :: "(real \<Rightarrow> real) \<Rightarrow> int \<Rightarrow> jsnum \<Rightarrow> jsnum \<Rightarrow> jsnum" where
  "rsi_smooth rnd period avg x =
     jdiv rnd (jadd rnd (jmul rnd avg (Fin (real_of_int (period - 1)))) x)
       (Fin (real_of_int period))"

fun rsi_loop ::
  "(real \<Rightarrow> real) \<Rightarrow> jsnum list \<Rightarrow> int \<Rightarrow> jsnum \<Rightarrow> jsnum \<Rightarrow> int list \<Rightarrow> jsnum option list"
where
  "rsi_loop rnd data period ag al [] = []"
| "rsi_loop rnd data period ag al (i # rest) =
     (if i < period then None # rsi_loop rnd data period ag al rest
      else if i = period
      then Some (rsi_value rnd ag al) # rsi_loop rnd data period ag al rest
      else
        let d = jsub rnd (js_nth data i) (js_nth data (i - 1));
            g = (if jlt (Fin 0) d then d else Fin 0);
            l = (if jlt d (Fin 0) then jabs d else Fin 0);
            ag' = rsi_smooth rnd period ag g;
            al' = rsi_smooth rnd period al l
        in Some (rsi_value rnd ag' al') # rsi_loop rnd data period ag' al' rest)"

definition calcRSI :: "(real \<Rightarrow> real) \<Rightarrow> jsnum list \<Rightarrow> int \<Rightarrow> jsnum option list" where
  "calcRSI rnd data period =
     (if int (length data) < period + 1 then map (\<lambda>_. None) data
      else
        let acc = foldl (rsi_seed rnd data) (Fin 0, Fin 0) [1..period];
            ag = jdiv rnd (fst acc) (Fin (real_of_int period));
            al = jdiv rnd (snd acc) (Fin (real_of_int period))
        in rsi_loop rnd data period ag al [0..int (length data) - 1])"

text \<open>
  The averages \<^verbatim>\<open>ag\<close> and \<^verbatim>\<open>al\<close> that the second loop holds when it handles index
  \<open>i\<close>: the recursion of \<open>rsi_loop\<close>, returning the state of each iteration in place
  of the entry it pushes. It names the smoothed average loss of an index.
\<close>

fun rsi_avgs_loop ::
  "(real \<Rightarrow> real) \<Rightarrow> jsnum list \<Rightarrow> int \<Rightarrow> jsnum \<Rightarrow> jsnum \<Rightarrow> int list \<Rightarrow> (jsnum \<times> jsnum) list"
where
  "rsi_avgs_loop rnd data period ag al [] = []"
| "rsi_avgs_loop rnd data period ag al (i # rest) =
     (if i < period then (ag, al) # rsi_avgs_loop rnd data period ag al rest
      else if i = period then (ag, al) # rsi_avgs_loop rnd data period ag al rest
      else
        let d = jsub rnd (js_nth data i) (js_nth data (i - 1));
            g = (if jlt (Fin 0) d then d else Fin 0);
            l = (if jlt d (Fin 0) then jabs d else Fin 0);
            ag' = rsi_smooth rnd period ag g;
            al' = rsi_smooth rnd period al l
        in (ag', al') # rsi_avgs_loop rnd data period ag' al' rest)"

definition rsi_avgs :: "(real \<Rightarrow> real) \<Rightarrow> jsnum list \<Rightarrow> int \<Rightarrow> (jsnum \<times> jsnum) list" where
  "rsi_avgs rnd data period =
     (if int (length data) < period + 1 then []
      else
        let acc = foldl (rsi_seed rnd data) (Fin 0, Fin 0) [1..period];
            ag = jdiv rnd (fst acc) (Fin (real_of_int period));
            al = jdiv rnd (snd acc) (Fin (real_of_int period))
        in rsi_avgs_loop rnd data period ag al [0..int (length data) - 1])"

text \<open>
  A value that is not negative: a finite one that is at least 0, \<^verbatim>\<open>Infinity\<close>, or
  \<^verbatim>\<open>NaN\<close> (which no comparison calls negative). A value in the closed RSI range, or
  \<^verbatim>\<open>NaN\<close>.
\<close>

fun nonneg :: "jsnum \<Rightarrow> bool" where
  "nonneg (Fin a) = (0 \<le> a)"
| "nonneg PInf = True"
| "nonneg NInf = False"
| "nonneg NaN = True"

fun in_0_100 :: "jsnum \<Rightarrow> bool" where
  "in_0_100 (Fin a) = (0 \<le> a \<and> a \<le> 100)"
| "in_0_100 PInf = False"
| "in_0_100 NInf = False"
| "in_0_100 NaN = True"

fun defined_in_0_100 :: "jsnum option \<Rightarrow> bool" where
  "defined_in_0_100 None = True"
| "defined_in_0_100 (Some x) = in_0_100 x"

fun is_some :: "'a option \<Rightarrow> bool" where
  "is_some None = False"
| "is_some (Some x) = True"

subsection \<open>Viewport\<close>

definition ZOOM_LEVELS :: "int list" where
  "ZOOM_LEVELS = [20, 30, 50, 70, 100, 140, 200]"

record viewport =
  zoomIndex :: int
  scrollOffset :: int

text \<open>
  \<^verbatim>\<open>ZOOM_LEVELS[zoomIndex]\<close> is \<^verbatim>\<open>undefined\<close> outside the list: \<open>None\<close>. The component
  starts at \<^verbatim>\<open>zoomIndex = 4\<close>, \<^verbatim>\<open>scrollOffset = 0\<close>.
\<close>

definition visibleCount :: "int \<Rightarrow> int option" where
  "visibleCount zi =
     (if 0 \<le> zi \<and> zi < int (length ZOOM_LEVELS) then Some (ZOOM_LEVELS ! nat zi) else None)"

definition initial_viewport :: viewport where
  "initial_viewport = \<lparr>zoomIndex = 4, scrollOffset = 0\<rparr>"

definition maxOffset :: "int \<Rightarrow> int \<Rightarrow> int" where
  "maxOffset totalCandles vc = max 0 (totalCandles - vc)"

definition clampedOffset :: "int \<Rightarrow> int \<Rightarrow> int" where
  "clampedOffset so mo = min so mo"

text \<open>\<^verbatim>\<open>Array.prototype.slice(start, stop)\<close> on integer arguments.\<close>

definition js_slice :: "'a list \<Rightarrow> int \<Rightarrow> int \<Rightarrow> 'a list" where
  "js_slice xs start stop =
     (let len = int (length xs);
          k = (if start < 0 then max (len + start) 0 else min start len);
          final = (if stop < 0 then max (len + stop) 0 else min stop len)
      in take (nat (final - k)) (drop (nat k) xs))"

definition displayCandles :: "'a list \<Rightarrow> int \<Rightarrow> int \<Rightarrow> 'a list" where
  "displayCandles candles vc so =
     (let totalCandles = int (length candles);
          co = clampedOffset so (maxOffset totalCandles vc);
          endIdx = totalCandles - co;
          startIdx = max 0 (endIdx - vc)
      in js_slice candles startIdx endIdx)"

text \<open>
  The navigation operations. \<open>DragMove offset n\<close> is \<^verbatim>\<open>handleDragMove\<close> with the offset
  recorded at the start of the drag and \<open>n = Math.round(dx / candleWidth)\<close> candles
  dragged (an integer, the chart having a width that is not zero);
  \<open>TimeframeChange\<close> is the timeframe button, which resets the offset. A step is
  taken against the series length of the moment; it is \<open>None\<close> when the zoom index is
  outside the list (which the zoom operations never produce).
\<close>

datatype nav =
  ScrollBy int | GoToLatest | GoToOldest | ZoomIn | ZoomOut | DragMove int int
  | TimeframeChange

definition nav_step :: "int \<Rightarrow> viewport \<Rightarrow> nav \<Rightarrow> viewport option" where
  "nav_step totalCandles v a =
     (case visibleCount (zoomIndex v) of
        None \<Rightarrow> None
      | Some vc \<Rightarrow>
          let mo = maxOffset totalCandles vc
          in Some (case a of
               ScrollBy delta \<Rightarrow> v\<lparr>scrollOffset := max 0 (min mo (scrollOffset v + delta))\<rparr>
             | GoToLatest \<Rightarrow> v\<lparr>scrollOffset := 0\<rparr>
             | GoToOldest \<Rightarrow> v\<lparr>scrollOffset := mo\<rparr>
             | ZoomIn \<Rightarrow> v\<lparr>zoomIndex := max 0 (zoomIndex v - 1)\<rparr>
             | ZoomOut \<Rightarrow> v\<lparr>zoomIndex := min (int (length ZOOM_LEVELS) - 1) (zoomIndex v + 1)\<rparr>
             | DragMove offset n \<Rightarrow> v\<lparr>scrollOffset := max 0 (min mo (offset + n))\<rparr>
             | TimeframeChange \<Rightarrow> v\<lparr>scrollOffset := 0\<rparr>))"

definition viewport_ok :: "viewport \<Rightarrow> bool" where
  "viewport_ok v \<longleftrightarrow>
     0 \<le> zoomIndex v \<and> zoomIndex v < int (length ZOOM_LEVELS) \<and> 0 \<le> scrollOffset v"

fun nav_run :: "viewport \<Rightarrow> (int \<times> nav) list \<Rightarrow> viewport option" where
  "nav_run v [] = Some v"
| "nav_run v ((totalCandles, a) # rest) =
     (case nav_step totalCandles v a of None \<Rightarrow> None | Some v' \<Rightarrow> nav_run v' rest)"

subsection \<open>Price axis\<close>

text \<open>
  The layout of the render effect: \<^verbatim>\<open>topPad = 6\<close>, \<^verbatim>\<open>bottomTimeBar = 22\<close>,
  \<^verbatim>\<open>minimapH = 28\<close>, each sub panel 60 high; \<open>H\<close> is \<^verbatim>\<open>container.clientHeight\<close>, an
  integer number of pixels, and the number of sub panels is 0, 1 or 2.
\<close>

definition topPad :: int where
  "topPad = 6"

definition mainChartH :: "int \<Rightarrow> nat \<Rightarrow> int" where
  "mainChartH H subPanelCount =
     (let bottomTimeBar = 22; minimapH = 28;
          subPanelH = (if subPanelCount > 0 then 60 * int subPanelCount else 0);
          mainChartBottom = H - bottomTimeBar - subPanelH - minimapH
      in mainChartBottom - topPad)"

text \<open>
  \<^verbatim>\<open>allPrices\<close>: the highs and lows of the visible candles, the current price when the
  view is at the latest candle, the entry price when there is one, and, when the
  Bollinger indicator is on (\<open>boll\<close>), the values of its upper and of its lower band
  over the visible closes that are not \<^verbatim>\<open>null\<close>.
\<close>

definition allPrices ::
  "(real \<Rightarrow> real) \<Rightarrow> candle list \<Rightarrow> bool \<Rightarrow> jsnum \<Rightarrow> jsnum option \<Rightarrow> bool \<Rightarrow> jsnum list"
where
  "allPrices rnd shown isAtLatest currentPrice entryPrice boll =
     (let closes = map (\<lambda>c. Fin (close c)) shown
      in concat (map (\<lambda>c. [Fin (high c), Fin (low c)]) shown) @
         (if isAtLatest then [currentPrice] else []) @
         (case entryPrice of None \<Rightarrow> [] | Some e \<Rightarrow> [e]) @
         (if boll
          then (let bollData = calcBollinger rnd closes 20 (Fin 2)
                in map the (filter (\<lambda>v. v \<noteq> None) (upper bollData)) @
                   map the (filter (\<lambda>v. v \<noteq> None) (lower bollData)))
          else []))"

text \<open>
  \<^verbatim>\<open>hi = Math.max(...allPrices) * 1.001\<close>, \<^verbatim>\<open>lo = Math.min(...allPrices) * 0.999\<close> and
  \<^verbatim>\<open>range = hi - lo || 1\<close> (here \<open>rng\<close>), as the triple \<open>(lo, hi, rng)\<close>. The literals
  \<^verbatim>\<open>1.001\<close> and \<^verbatim>\<open>0.999\<close> are not binary64 values and denote their roundings. The
  operator \<^verbatim>\<open>||\<close> takes its right operand when the left one is zero or \<^verbatim>\<open>NaN\<close>. (The
  effect returns before, nothing to draw, when there is no visible candle.)
\<close>

definition priceScale :: "(real \<Rightarrow> real) \<Rightarrow> jsnum list \<Rightarrow> jsnum \<times> jsnum \<times> jsnum" where
  "priceScale rnd prices =
     (let hi = jmul rnd (Math_max prices) (Fin (rnd (1001 / 1000)));
          lo = jmul rnd (Math_min prices) (Fin (rnd (999 / 1000)));
          d = jsub rnd hi lo;
          rng = (if d = Fin 0 \<or> d = NaN then Fin 1 else d)
      in (lo, hi, rng))"

text \<open>
  \<^verbatim>\<open>priceToY = p => topPad + mainChartH - ((p - lo) / range) * mainChartH\<close> and
  \<^verbatim>\<open>yToPrice = y => hi - ((y - topPad) / mainChartH) * range\<close>; \<open>chartH\<close> is the value of
  \<^verbatim>\<open>mainChartH\<close>.
\<close>

definition priceToY :: "(real \<Rightarrow> real) \<Rightarrow> int \<Rightarrow> jsnum \<Rightarrow> jsnum \<Rightarrow> jsnum \<Rightarrow> jsnum" where
  "priceToY rnd chartH lo rng p =
     jsub rnd (jadd rnd (Fin (real_of_int topPad)) (Fin (real_of_int chartH)))
       (jmul rnd (jdiv rnd (jsub rnd p lo) rng) (Fin (real_of_int chartH)))"

definition yToPrice :: "(real \<Rightarrow> real) \<Rightarrow> int \<Rightarrow> jsnum \<Rightarrow> jsnum \<Rightarrow> jsnum \<Rightarrow> jsnum" where
  "yToPrice rnd chartH hi rng y =
     jsub rnd hi
       (jmul rnd (jdiv rnd (jsub rnd y (Fin (real_of_int topPad))) (Fin (real_of_int chartH))) rng)"

text \<open>
  A price of the usual magnitude: finite and between \<open>2^-1000\<close> and \<open>2^1000\<close>.
\<close>

fun normal_price :: "jsnum \<Rightarrow> bool" where
  "normal_price (Fin x) = (1 / 2 ^ 1000 \<le> x \<and> x \<le> 2 ^ 1000)"
| "normal_price PInf = False"
| "normal_price NInf = False"
| "normal_price NaN = False"

section \<open>The candle aggregator\<close>

subsection \<open>The trim and the update\<close>

lemma trim500_nonempty: "xs \<noteq> [] \<Longrightarrow> trim500 xs \<noteq> []"
  by (auto simp: trim500_def)

lemma last_trim500: "xs \<noteq> [] \<Longrightarrow> last (trim500 xs) = last xs"
  by (auto simp: trim500_def)

lemma trim500_drop: "trim500 xs = drop (length xs - 500) xs"
  by (simp add: trim500_def)

lemma length_trim500: "length (trim500 xs) \<le> 500"
  by (simp add: trim500_def)

lemma tick_update_nonempty: "tick_update cs p price now \<noteq> []"
  by (auto simp: tick_update_def Let_def)

lemma length_tick_update: "length (tick_update cs p price now) \<le> length cs + 1"
  by (auto simp: tick_update_def Let_def)

lemma map_time_tick_update:
  "map time (tick_update cs p price now) =
     (if cs \<noteq> [] \<and> time (last cs) = bucket_of p now then map time cs
      else map time cs @ [bucket_of p now])"
  by (auto simp: tick_update_def Let_def map_update last_conv_nth
      intro!: list_update_same_conv[THEN iffD2])

subsection \<open>Buckets\<close>

lemma bucket_mono: "0 < p \<Longrightarrow> a \<le> b \<Longrightarrow> bucket_of p a \<le> bucket_of p b"
  by (simp add: bucket_of_def Let_def zdiv_mono1)

lemma bucket_aligned: "bucket_of p a mod (p * 1000) = 0"
  by (simp add: bucket_of_def Let_def)

text \<open>Two timestamps at most one period apart fall in the same bucket or in adjacent ones.\<close>

lemma bucket_close:
  assumes "0 < p" "a \<le> b" "b - a \<le> p * 1000"
  shows "bucket_of p b = bucket_of p a \<or> bucket_of p b = bucket_of p a + p * 1000"
proof -
  define m where "m = p * 1000"
  have m: "0 < m" using assms(1) by (simp add: m_def)
  have "a div m \<le> b div m" using assms(2) m by (simp add: zdiv_mono1)
  moreover have "b div m \<le> a div m + 1"
  proof -
    have "b \<le> a + m" using assms(3) by (simp add: m_def)
    from zdiv_mono1[OF this m] show ?thesis using m by simp
  qed
  ultimately have "b div m = a div m \<or> b div m = a div m + 1" by linarith
  then show ?thesis
    by (auto simp: bucket_of_def Let_def m_def[symmetric] algebra_simps)
qed

subsection \<open>Lists of times\<close>

lemma gapless_tl: "gapless s xs \<Longrightarrow> gapless s (tl xs)"
  by (induction s xs rule: gapless.induct) auto

lemma gapless_drop: "gapless s xs \<Longrightarrow> gapless s (drop k xs)"
  by (induction k arbitrary: xs) (auto simp: drop_Suc gapless_tl)

lemma aligned_append: "aligned m (xs @ ys) \<longleftrightarrow> aligned m xs \<and> aligned m ys"
  by (simp add: aligned_def)

lemma aligned_drop: "aligned m xs \<Longrightarrow> aligned m (drop k xs)"
  by (auto simp: aligned_def list_all_iff dest: in_set_dropD)

subsection \<open>The times of a series\<close>

text \<open>
  A step compares the bucket of the tick with the time of the last candle only, so the
  times of a series are the times it started with followed by the buckets of the ticks,
  with each run of equal values kept once, cut to the most recent 500.
\<close>

lemma remdups_adj_snoc:
  assumes "distinct_adj xs"
  shows "remdups_adj (xs @ [b]) = (if xs \<noteq> [] \<and> last xs = b then xs else xs @ [b])"
proof (cases xs rule: rev_cases)
  case Nil
  then show ?thesis by simp
next
  case (snoc ys x)
  have "remdups_adj (ys @ [x]) = ys @ [x]"
    using assms snoc by (simp add: distinct_adj_altdef)
  then show ?thesis using snoc remdups_adj_append_two[of ys x b] by auto
qed

lemma trim500_trim500_append: "trim500 (trim500 xs @ ws) = trim500 (xs @ ws)"
  by (auto simp: trim500_def add.commute)

lemma distinct_adj_drop: "distinct_adj xs \<Longrightarrow> distinct_adj (drop k xs)"
  by (metis append_take_drop_id distinct_adj_appendD2)

lemma distinct_adj_trim500: "distinct_adj xs \<Longrightarrow> distinct_adj (trim500 xs)"
  by (simp add: trim500_def distinct_adj_drop)

lemma remdups_adj_distinct_append:
  assumes "distinct_adj (zs @ [b])"
  shows "remdups_adj (zs @ b # ws) = zs @ remdups_adj (b # ws)"
proof -
  have "remdups_adj (zs @ [b]) = zs @ [b]" using assms by (simp add: distinct_adj_altdef)
  then have "remdups_adj (zs @ b # ws) = (zs @ [b]) @ tl (remdups_adj (b # ws))"
    using remdups_adj_append[of zs b ws] by simp
  moreover have "[b] @ tl (remdups_adj (b # ws)) = remdups_adj (b # ws)"
    by (simp add: remdups_adj_Cons_alt)
  ultimately show ?thesis by simp
qed

text \<open>The times of one step.\<close>

lemma map_time_tickCandles_remdups:
  assumes "distinct_adj (map time cs)"
  shows "map time (tickCandles cs p price now) =
           trim500 (remdups_adj (map time cs @ [bucket_of p now]))"
proof -
  have "last (map time cs) = time (last cs)" if "cs \<noteq> []" using that by (simp add: last_map)
  then have "map time (tick_update cs p price now) = remdups_adj (map time cs @ [bucket_of p now])"
    using remdups_adj_snoc[OF assms, of "bucket_of p now"] by (auto simp: map_time_tick_update)
  moreover have "map time (trim500 ys) = trim500 (map time ys)" for ys :: "candle list"
    by (simp add: trim500_def drop_map)
  ultimately show ?thesis by (simp add: tickCandles_def)
qed

lemma map_time_run_ticks:
  "distinct_adj (map time cs) \<Longrightarrow> length cs \<le> 500 \<Longrightarrow>
     map time (run_ticks cs p ticks) =
       trim500 (remdups_adj (map time cs @ map (\<lambda>tk. bucket_of p (snd tk)) ticks))"
proof (induction ticks arbitrary: cs)
  case Nil
  then show ?case by (simp add: trim500_def distinct_adj_altdef)
next
  case (Cons tk ticks)
  obtain price now where tk: "tk = (price, now)" by (cases tk)
  let ?b = "bucket_of p now"
  let ?bs = "map (\<lambda>tk. bucket_of p (snd tk)) ticks"
  let ?cs' = "tickCandles cs p price now"
  let ?X = "remdups_adj (map time cs @ [?b])"
  have t': "map time ?cs' = trim500 ?X"
    by (rule map_time_tickCandles_remdups[OF Cons.prems(1)])
  have dX: "distinct_adj ?X" by (rule distinct_adj_remdups_adj)
  have d': "distinct_adj (map time ?cs')" using dX by (simp add: t' distinct_adj_trim500)
  have l': "length ?cs' \<le> 500"
    using length_trim500[of "tick_update cs p price now"] by (simp add: tickCandles_def)
  have Xne: "?X \<noteq> []" by simp
  have lX: "last ?X = ?b" by (simp add: last_remdups_adj)
  obtain zs where zs: "?X = zs @ [?b]"
    using Xne lX by (metis append_butlast_last_id)
  let ?W = "tl (remdups_adj (?b # ?bs))"
  have full: "remdups_adj (map time cs @ ?b # ?bs) = ?X @ ?W"
    using remdups_adj_append[of "map time cs" ?b ?bs] by simp
  have tne: "trim500 ?X \<noteq> []" using Xne by (rule trim500_nonempty)
  have tl: "last (trim500 ?X) = ?b" using lX Xne by (simp add: last_trim500)
  obtain ys where ys: "trim500 ?X = ys @ [?b]"
    using tne tl by (metis append_butlast_last_id)
  have "distinct_adj (ys @ [?b])" using dX distinct_adj_trim500[of ?X] by (simp add: ys)
  from remdups_adj_distinct_append[OF this, of ?bs]
  have "remdups_adj (trim500 ?X @ ?bs) = trim500 ?X @ ?W"
    using ys by (simp add: remdups_adj_Cons_alt)
  then have "map time (run_ticks ?cs' p ticks) = trim500 (trim500 ?X @ ?W)"
    using Cons.IH[OF d' l'] by (simp add: t')
  also have "\<dots> = trim500 (?X @ ?W)" by (rule trim500_trim500_append)
  finally show ?case using full by (simp add: tk)
qed

subsection \<open>Increasing, aligned and gapless lists of times\<close>

text \<open>A sorted list without repetition is strictly increasing.\<close>

lemma sorted_remdups_adj_strict:
  "sorted (xs :: int list) \<Longrightarrow> sorted_wrt (<) (remdups_adj xs)"
proof (induction xs rule: remdups_adj.induct)
  case (3 x y xs)
  show ?case
  proof (cases "x = y")
    case True
    then show ?thesis using 3 by simp
  next
    case False
    have "\<forall>z\<in>set (remdups_adj (y # xs)). x < z"
      using "3.prems" False by auto
    then show ?thesis using 3 False by simp
  qed
qed simp_all

lemma aligned_remdups_adj: "aligned m xs \<Longrightarrow> aligned m (remdups_adj xs)"
  by (simp add: aligned_def list_all_iff)

lemma aligned_trim500: "aligned m xs \<Longrightarrow> aligned m (trim500 xs)"
  by (simp add: trim500_def aligned_drop)

lemma gapless_trim500: "gapless s xs \<Longrightarrow> gapless s (trim500 xs)"
  by (simp add: trim500_def gapless_drop)

text \<open>
  In a sorted list of multiples of the step, the distinct values are exactly one step
  apart if and only if consecutive values are at most one step apart.
\<close>

lemma gapless_remdups_adj:
  assumes "0 < m"
  shows "sorted xs \<Longrightarrow> aligned m xs \<Longrightarrow> gapless m (remdups_adj xs) \<longleftrightarrow> close_ticks m xs"
proof (induction xs rule: remdups_adj.induct)
  case (3 x y xs)
  have xy: "x \<le> y" using "3.prems"(1) by simp
  have al: "x mod m = 0" "y mod m = 0" using "3.prems"(2) by (simp_all add: aligned_def)
  have s: "sorted (y # xs)" "aligned m (y # xs)"
    using "3.prems" by (simp_all add: aligned_def)
  show ?case
  proof (cases "x = y")
    case True
    have "gapless m (remdups_adj (x # xs)) \<longleftrightarrow> close_ticks m (x # xs)"
      using "3.IH"(1)[OF True] s True by simp
    then show ?thesis using True assms by simp
  next
    case False
    obtain zs where zs: "remdups_adj (y # xs) = y # zs"
      by (metis remdups_adj_Cons_alt)
    have ih: "gapless m (y # zs) \<longleftrightarrow> close_ticks m (y # xs)"
      using "3.IH"(2)[OF False s] zs by simp
    obtain a b where ab: "x = a * m" "y = b * m"
      using al by (metis mod_eq_0_iff_dvd dvd_def mult.commute)
    have "a < b" using xy False ab assms by (metis mult_le_cancel_right leD leI order.strict_iff_order)
    then have "y - x \<le> m \<longleftrightarrow> y = x + m"
    proof -
      have "(b - a) * m \<le> 1 * m \<longleftrightarrow> b - a \<le> 1" using assms by (simp only: mult_le_cancel_right) auto
      moreover have "y - x = (b - a) * m" by (simp add: ab algebra_simps)
      moreover have "y = x + m \<longleftrightarrow> b = a + 1"
      proof -
        have "b * m = (a + 1) * m \<longleftrightarrow> b = a + 1" using assms by simp
        then show ?thesis by (simp add: ab algebra_simps)
      qed
      ultimately show ?thesis using \<open>a < b\<close> by auto
    qed
    then show ?thesis using False zs ih by simp
  qed
qed simp_all

lemma close_ticks_buckets:
  assumes "0 < p"
  shows "sorted ts \<Longrightarrow> close_ticks (p * 1000) ts \<Longrightarrow>
     close_ticks (p * 1000) (map (bucket_of p) ts)"
proof (induction ts rule: remdups_adj.induct)
  case (3 x y xs)
  have xy: "x \<le> y" "y - x \<le> p * 1000" using "3.prems" by simp_all
  have "close_ticks (p * 1000) (map (bucket_of p) (y # xs))"
  proof (cases "x = y")
    case True
    then show ?thesis using "3.IH"(1) "3.prems" by simp
  next
    case False
    then show ?thesis using "3.IH"(2) "3.prems" by simp
  qed
  then show ?case using bucket_close[OF assms xy] assms by auto
qed simp_all

lemma bucket_of_aligned: "p \<noteq> 0 \<Longrightarrow> t mod (p * 1000) = 0 \<Longrightarrow> bucket_of p t = t"
  by (auto simp: bucket_of_def Let_def)

subsection \<open>The candle invariant (C1)\<close>

text \<open>
  C1. The specification asks that every candle of a series made by \<^verbatim>\<open>tickCandles\<close> has
  \<open>low \<le> min(open, close)\<close> and \<open>max(open, close) \<le> high\<close>. The code opens a new candle
  at the previous close but starts its high and low at the new price, so the open of a
  candle can lie outside its high-low range. Two ticks into an empty one-minute series,
  100 at time 0 and 105 at time 60000, give a second candle with open 100 and low 105.
\<close>

theorem tickCandles_breaks_ohlc:
  "run_ticks [] 60 [(100, 0), (105, 60000)] =
     [\<lparr>time = 0, open' = 100, high = 100, low = 100, close = 100\<rparr>,
      \<lparr>time = 60000, open' = 100, high = 105, low = 105, close = 105\<rparr>] \<and>
   \<not> ohlc_ok \<lparr>time = 60000, open' = 100, high = 105, low = 105, close = 105\<rparr>"
  by (simp add: tickCandles_def tick_update_def trim500_def bucket_of_def ohlc_ok_def)

subsection \<open>Times of a series (C2)\<close>

text \<open>
  C2, as the specification states it, fails: the aggregator appends one candle for the
  bucket of the tick and none for the buckets that passed without a tick. Ticks at time
  0 and at time 120000 (non-decreasing) leave the one-minute series with the times 0 and
  120000, which are two periods apart.
\<close>

theorem tickCandles_gap_counterexample:
  "sorted (map snd [(100::real, 0::int), (100, 120000)]) \<and>
   \<not> gapless (60 * 1000) (map time (run_ticks [] 60 [(100, 0), (100, 120000)]))"
  by (simp add: tickCandles_def tick_update_def trim500_def bucket_of_def)

text \<open>
  C2, amended. Take a period \<open>T > 0\<close>, a stored series of at most 500 candles whose
  times are strictly increasing multiples of \<open>T * 1000\<close> ms (the empty series, or the
  seeded one), and ticks with non-decreasing timestamps, none before a time of the
  series. Then the times of the aggregated series are exactly the times of the stored
  series followed by the buckets of the ticks, each distinct value once, cut to the most
  recent 500: among these, one candle for every bucket that received a tick and none
  for a bucket that elapsed without one. They are strictly increasing multiples of
  \<open>T * 1000\<close>. Before the
  cut they are spaced exactly one period apart if and only if no two consecutive values
  among the stored times and the buckets of the ticks are more than one period apart;
  in that case the series has no gap, and this is so in particular for ticks at most
  one period apart aggregated from the empty series.
\<close>

theorem tickCandles_series_times:
  assumes "0 < periodSec" "sorted (map snd ticks)"
    and "sorted_wrt (<) (map time series)"
    and "aligned (periodSec * 1000) (map time series)"
    and "length series \<le> 500"
    and "list_all (\<lambda>c. list_all (\<lambda>tk. time c \<le> snd tk) ticks) series"
  shows "map time (run_ticks series periodSec ticks) =
           trim500 (remdups_adj
             (map time series @ map (bucket_of periodSec) (map snd ticks))) \<and>
         sorted_wrt (<) (map time (run_ticks series periodSec ticks)) \<and>
         aligned (periodSec * 1000) (map time (run_ticks series periodSec ticks)) \<and>
         (gapless (periodSec * 1000)
            (remdups_adj (map time series @ map (bucket_of periodSec) (map snd ticks))) \<longleftrightarrow>
          close_ticks (periodSec * 1000)
            (map time series @ map (bucket_of periodSec) (map snd ticks))) \<and>
         (close_ticks (periodSec * 1000)
            (map time series @ map (bucket_of periodSec) (map snd ticks)) \<longrightarrow>
          gapless (periodSec * 1000) (map time (run_ticks series periodSec ticks))) \<and>
         (series = [] \<and> close_ticks (periodSec * 1000) (map snd ticks) \<longrightarrow>
          gapless (periodSec * 1000) (map time (run_ticks series periodSec ticks)))"
proof -
  let ?m = "periodSec * 1000"
  let ?T = "map time series"
  let ?B = "map (bucket_of periodSec) (map snd ticks)"
  let ?ts = "map time (run_ticks series periodSec ticks)"
  have m: "0 < ?m" using assms(1) by simp
  have dT: "distinct_adj ?T"
    using assms(3) by (simp add: distinct_adj_altdef remdups_adj_distinct strict_sorted_iff)
  have ts: "?ts = trim500 (remdups_adj (?T @ ?B))"
    using map_time_run_ticks[OF dT assms(5), of periodSec ticks] by (simp add: comp_def)
  have sB: "sorted ?B"
  proof -
    have "sorted (map (bucket_of periodSec) ns)" if "sorted ns" for ns
      using that bucket_mono[OF assms(1)] by (induction ns) auto
    from this[OF assms(2)] show ?thesis .
  qed
  have aB: "aligned ?m ?B" by (simp add: aligned_def list_all_iff bucket_aligned)
  have sT: "sorted ?T" using assms(3) by (simp add: strict_sorted_iff)
  have TB: "t \<le> b" if tT: "t \<in> set ?T" and bB: "b \<in> set ?B" for t b
  proof -
    obtain c where c: "c \<in> set series" "t = time c" using tT by auto
    obtain tk where tk: "tk \<in> set ticks" "b = bucket_of periodSec (snd tk)" using bB by auto
    have "t mod ?m = 0" using assms(4) tT by (auto simp: aligned_def list_all_iff)
    then have "bucket_of periodSec t = t" using assms(1) by (simp add: bucket_of_aligned)
    moreover have "t \<le> snd tk" using assms(6) c tk by (simp add: list_all_iff)
    ultimately show ?thesis using bucket_mono[OF assms(1), of t "snd tk"] tk by simp
  qed
  have sL: "sorted (?T @ ?B)" using sT sB TB by (simp add: sorted_append)
  have aL: "aligned ?m (?T @ ?B)" using assms(4) aB by (simp add: aligned_append)
  have 2: "sorted_wrt (<) ?ts"
    using sorted_remdups_adj_strict[OF sL] by (simp add: ts trim500_def sorted_wrt_drop)
  have 3: "aligned ?m ?ts"
    using aL by (simp add: ts aligned_trim500 aligned_remdups_adj)
  have 4: "gapless ?m (remdups_adj (?T @ ?B)) \<longleftrightarrow> close_ticks ?m (?T @ ?B)"
    by (rule gapless_remdups_adj[OF m sL aL])
  have 5: "gapless ?m ?ts" if "close_ticks ?m (?T @ ?B)"
    using that 4 by (simp add: ts gapless_trim500)
  have 6: "gapless ?m ?ts" if "series = []" "close_ticks ?m (map snd ticks)"
  proof -
    have "close_ticks ?m ?B" by (rule close_ticks_buckets[OF assms(1,2) that(2)])
    then show ?thesis using 5 that(1) by simp
  qed
  show ?thesis using ts 2 3 4 5 6 by blast
qed

text \<open>
  A stored candle at time 0 on the one-minute timeframe and three ticks in the next two
  buckets.
\<close>

theorem tickCandles_series_times_witness:
  "(0::int) < 60 \<and>
   sorted (map snd [(101::real, 60100::int), (102, 60900), (103, 120000)]) \<and>
   sorted_wrt (<) (map time [\<lparr>time = 0, open' = 100, high = 100, low = 100, close = 100\<rparr>]) \<and>
   aligned (60 * 1000)
     (map time [\<lparr>time = 0, open' = 100, high = 100, low = 100, close = 100\<rparr>]) \<and>
   length [\<lparr>time = 0, open' = 100, high = 100, low = 100, close = 100\<rparr>] \<le> 500 \<and>
   list_all (\<lambda>c. list_all (\<lambda>tk. time c \<le> snd tk)
       [(101::real, 60100::int), (102, 60900), (103, 120000)])
     [\<lparr>time = 0, open' = 100, high = 100, low = 100, close = 100\<rparr>] \<and>
   close_ticks (60 * 1000)
     (map time [\<lparr>time = 0, open' = 100, high = 100, low = 100, close = 100\<rparr>] @
      map (bucket_of 60) (map snd [(101::real, 60100::int), (102, 60900), (103, 120000)])) \<and>
   map time
     (run_ticks [\<lparr>time = 0, open' = 100, high = 100, low = 100, close = 100\<rparr>] 60
        [(101, 60100), (102, 60900), (103, 120000)]) = [0, 60000, 120000] \<and>
   gapless (60 * 1000)
     (map time
       (run_ticks [\<lparr>time = 0, open' = 100, high = 100, low = 100, close = 100\<rparr>] 60
          [(101, 60100), (102, 60900), (103, 120000)]))"
  using tickCandles_series_times[of 60 "[(101, 60100), (102, 60900), (103, 120000)]"
      "[\<lparr>time = 0, open' = 100, high = 100, low = 100, close = 100\<rparr>]"]
  by (simp add: aligned_def bucket_of_def trim500_def)

subsection \<open>One aggregator step (C3)\<close>

text \<open>The code before its trim is the step the specification describes.\<close>

lemma tick_update_eq_append_spec:
  "tick_update series periodSec price ts = append_spec series periodSec price ts"
proof (cases "series = []")
  case True
  then show ?thesis by (simp add: tick_update_def append_spec_def bucket_of_def Let_def)
next
  case False
  then have sn: "series = butlast series @ [last series]" by simp
  have upd: "series[length series - Suc 0 := c] = butlast series @ [c]" for c
    by (subst sn) (simp add: list_update_append del: append_butlast_last_id)
  show ?thesis using False
    by (cases "last series")
      (simp add: tick_update_def append_spec_def bucket_of_def Let_def upd)
qed

lemma length_series500: "length series500 = 500"
  by (simp add: series500_def)

lemma last_series500:
  "last series500 = \<lparr>time = 29940000, open' = 100, high = 100, low = 100, close = 100\<rparr>"
  by (simp add: series500_def last_map last_upt)

lemma series500_nonempty: "series500 \<noteq> []"
  using length_series500 by auto

lemma tick_update_series500:
  "tick_update series500 60 101 30000000 =
     series500 @ [\<lparr>time = 30000000, open' = 100, high = 101, low = 101, close = 101\<rparr>]"
  by (simp add: tick_update_def bucket_of_def series500_nonempty last_series500)

text \<open>
  C3, as stated, fails on a series that is already at the cap: the step on a new bucket
  does not return the series with the new candle appended, and does not leave all earlier
  candles in place, since the oldest candle is dropped. On the full series of 500 candles
  and a tick in the next bucket the result has 500 candles, not 501.
\<close>

theorem tickCandles_step_counterexample:
  "time (last series500) \<noteq> bucket_of 60 30000000 \<and>
   length (tickCandles series500 60 101 30000000) = 500 \<and>
   tickCandles series500 60 101 30000000 \<noteq>
     series500 @ [\<lparr>time = bucket_of 60 30000000, open' = close (last series500),
                   high = 101, low = 101, close = 101\<rparr>]"
proof -
  have b: "bucket_of 60 30000000 = 30000000" by (simp add: bucket_of_def)
  have len: "length (tickCandles series500 60 101 30000000) = 500"
    by (simp add: tickCandles_def tick_update_series500 trim500_def length_series500)
  have "length (series500 @ [\<lparr>time = bucket_of 60 30000000, open' = close (last series500),
                   high = 101, low = 101, close = 101\<rparr>]) = 501"
    by (simp add: length_series500)
  with len have "tickCandles series500 60 101 30000000 \<noteq>
     series500 @ [\<lparr>time = bucket_of 60 30000000, open' = close (last series500),
                   high = 101, low = 101, close = 101\<rparr>]"
    by auto
  then show ?thesis using len by (simp add: b last_series500)
qed

text \<open>
  C3, amended. For every series, every non-zero period, price and timestamp, one step
  computes \<open>bucket = floor(timestamp / periodMs) * periodMs\<close>; if the series is non-empty
  and its last candle's time equals the bucket, the last candle is replaced by one with
  \<open>close = price\<close>, \<open>high = max(old high, price)\<close>, \<open>low = min(old low, price)\<close> and
  the same open and time; otherwise a candle is appended whose open is the previous
  close (the price on an empty series), with \<open>high = low = close = price\<close> and
  \<open>time = bucket\<close>; the other candles are unchanged. Of the resulting series the step
  returns the most recent 500 candles: all of it when the input has fewer than 500.
\<close>

theorem tickCandles_step:
  assumes "periodSec \<noteq> 0"
  shows "tickCandles series periodSec price ts =
           trim500 (append_spec series periodSec price ts) \<and>
         (length series < 500 \<longrightarrow>
            tickCandles series periodSec price ts = append_spec series periodSec price ts)"
  using length_tick_update[of series periodSec price ts]
  by (auto simp: tickCandles_def tick_update_eq_append_spec trim500_def)

text \<open>A tick inside the bucket of the last candle, and a tick in the next bucket.\<close>

theorem tickCandles_step_witness:
  "(60::int) \<noteq> 0 \<and>
   tickCandles [\<lparr>time = 0, open' = 100, high = 100, low = 100, close = 100\<rparr>] 60 105 800 =
     [\<lparr>time = 0, open' = 100, high = 105, low = 100, close = 105\<rparr>] \<and>
   tickCandles [\<lparr>time = 0, open' = 100, high = 100, low = 100, close = 100\<rparr>] 60 105 60000 =
     [\<lparr>time = 0, open' = 100, high = 100, low = 100, close = 100\<rparr>,
      \<lparr>time = 60000, open' = 100, high = 105, low = 105, close = 105\<rparr>]"
  using
    tickCandles_step[of 60 "[\<lparr>time = 0, open' = 100, high = 100, low = 100, close = 100\<rparr>]"
      105 800]
    tickCandles_step[of 60 "[\<lparr>time = 0, open' = 100, high = 100, low = 100, close = 100\<rparr>]"
      105 60000]
  by (simp add: append_spec_def trim500_def)

subsection \<open>The cap (C4)\<close>

text \<open>
  C4. For every input series of at most 500 candles and every tick, the returned series
  has at most 500 candles. It is the updated series without its oldest candles: what is
  returned is a final segment of the updated series (so each retained candle is the
  candle the update holds for its bucket), at most one candle is dropped, and all input
  candles but the last pass into the updated series unchanged.
\<close>

theorem tickCandles_cap:
  assumes "length candles \<le> 500"
  shows "length (tickCandles candles periodSec newPrice now) \<le> 500 \<and>
         tickCandles candles periodSec newPrice now =
           drop (length (tick_update candles periodSec newPrice now) - 500)
                (tick_update candles periodSec newPrice now) \<and>
         length (tick_update candles periodSec newPrice now) - 500 \<le> 1 \<and>
         butlast candles =
           take (length candles - 1) (tick_update candles periodSec newPrice now)"
proof -
  have "butlast candles = take (length candles - 1) (tick_update candles periodSec newPrice now)"
    by (auto simp: tick_update_def Let_def butlast_conv_take)
  moreover have "length (tickCandles candles periodSec newPrice now) \<le> 500"
    by (simp add: tickCandles_def length_trim500)
  ultimately show ?thesis
    using assms length_tick_update[of candles periodSec newPrice now]
    by (simp add: tickCandles_def trim500_drop)
qed

text \<open>The full series and a tick in the next bucket: the oldest candle goes.\<close>

theorem tickCandles_cap_witness:
  "length series500 \<le> 500 \<and>
   length (tickCandles series500 60 101 30000000) = 500 \<and>
   tickCandles series500 60 101 30000000 =
     tl series500 @ [\<lparr>time = 30000000, open' = 100, high = 101, low = 101, close = 101\<rparr>]"
  using tickCandles_cap[of series500 60 101 30000000]
  by (simp add: tick_update_series500 length_series500 drop_Suc series500_nonempty)

subsection \<open>The close stays inside the range\<close>

lemma tick_update_close_in_range:
  assumes "list_all close_in_range cs"
  shows "list_all close_in_range (tick_update cs p price now)"
  using assms
  by (auto simp: tick_update_def Let_def close_in_range_def list_all_iff
      dest!: set_update_subset_insert[THEN subsetD])

lemma tickCandles_close_in_range:
  assumes "list_all close_in_range cs"
  shows "list_all close_in_range (tickCandles cs p price now)"
  using tick_update_close_in_range[OF assms, of p price now]
  by (auto simp: tickCandles_def trim500_def list_all_iff dest: in_set_dropD)

lemma run_ticks_close_in_range:
  "list_all close_in_range cs \<Longrightarrow> list_all close_in_range (run_ticks cs p ticks)"
  by (induction cs p ticks rule: run_ticks.induct) (simp_all add: tickCandles_close_in_range)

section \<open>Arithmetic of JavaScript numbers\<close>

lemma MAX_VALUE_ge: "1000000 \<le> MAX_VALUE"
  by (simp add: MAX_VALUE_def)

lemma MAX_VALUE_lower: "2 ^ 1023 \<le> MAX_VALUE"
  by (simp add: MAX_VALUE_def)

lemma MAX_VALUE_upper: "MAX_VALUE < 2 ^ 1024"
  by (simp add: MAX_VALUE_def)

text \<open>In exact arithmetic a result of moderate size is the value itself.\<close>

lemma fin_id_small: "\<bar>x\<bar> \<le> 1000000 \<Longrightarrow> fin id x = Fin x"
  using MAX_VALUE_ge by (auto simp: fin_def Let_def)

lemma rounding_id: "rounding id"
  by (simp add: rounding_def mono_def)

lemma rounding_mono: "rounding rnd \<Longrightarrow> x \<le> y \<Longrightarrow> rnd x \<le> rnd y"
  by (simp add: rounding_def mono_def)

lemma rounding_grid:
  "rounding rnd \<Longrightarrow> \<bar>m\<bar> \<le> 2 ^ 53 \<Longrightarrow> - 1074 \<le> e \<Longrightarrow>
     rnd (real_of_int m * 2 powi e) = real_of_int m * 2 powi e"
  by (simp add: rounding_def)

lemma rounding_int:
  assumes "rounding rnd" "\<bar>m\<bar> \<le> 2 ^ 53"
  shows "rnd (real_of_int m) = real_of_int m"
  using rounding_grid[OF assms, of 0] by simp

lemma rounding_0: "rounding rnd \<Longrightarrow> rnd 0 = 0"
  using rounding_int[of rnd 0] by simp

lemma rounding_1: "rounding rnd \<Longrightarrow> rnd 1 = 1"
  using rounding_int[of rnd 1] by simp

lemma rounding_100: "rounding rnd \<Longrightarrow> rnd 100 = 100"
  using rounding_int[of rnd 100] by simp

lemma rounding_pow2:
  assumes "rounding rnd" "- 1074 \<le> e"
  shows "rnd (2 powi e) = 2 powi e" "rnd (- (2 powi e)) = - (2 powi e)"
  using rounding_grid[OF assms(1) _ assms(2), of 1] rounding_grid[OF assms(1) _ assms(2), of "- 1"]
  by simp_all

subsection \<open>Values that are not negative\<close>

lemma fin_nonneg: "rounding rnd \<Longrightarrow> 0 \<le> x \<Longrightarrow> nonneg (fin rnd x)"
  using rounding_mono[of rnd 0 x] MAX_VALUE_ge
  by (auto simp: fin_def Let_def rounding_0)

lemma nonneg_jadd: "rounding rnd \<Longrightarrow> nonneg a \<Longrightarrow> nonneg b \<Longrightarrow> nonneg (jadd rnd a b)"
  by (cases a; cases b) (simp_all add: fin_nonneg)

lemma nonneg_jmul: "rounding rnd \<Longrightarrow> nonneg a \<Longrightarrow> nonneg b \<Longrightarrow> nonneg (jmul rnd a b)"
  by (cases a; cases b) (simp_all add: fin_nonneg)

lemma nonneg_jdiv: "rounding rnd \<Longrightarrow> nonneg a \<Longrightarrow> nonneg b \<Longrightarrow> nonneg (jdiv rnd a b)"
  by (cases a; cases b) (simp_all add: fin_nonneg)

lemma nonneg_jabs: "nonneg (jabs x)"
  by (cases x) simp_all

lemma jlt_0_nonneg: "jlt (Fin 0) d \<Longrightarrow> nonneg d"
  by (cases d) simp_all

lemma fin_ge1:
  assumes "rounding rnd" "1 \<le> x"
  shows "fin rnd x = PInf \<or> (\<exists>y. fin rnd x = Fin y \<and> 1 \<le> y)"
  using rounding_mono[OF assms(1) assms(2)] rounding_1[OF assms(1)] MAX_VALUE_ge
  by (auto simp: fin_def Let_def)

lemma fin_0_100:
  assumes "rounding rnd" "0 \<le> x" "x \<le> 100"
  shows "\<exists>z. fin rnd x = Fin z \<and> 0 \<le> z \<and> z \<le> 100"
  using rounding_mono[OF assms(1) assms(2)] rounding_mono[OF assms(1) assms(3)]
    rounding_0[OF assms(1)] rounding_100[OF assms(1)] MAX_VALUE_ge
  by (auto simp: fin_def Let_def)

section \<open>The tick generator (C7)\<close>

text \<open>
  C7. For every previous price that is finite and strictly positive, the price one tick
  step stores is finite and strictly positive. This holds for every value of
  \<^verbatim>\<open>Math.random()\<close> and every rounding of the arithmetic, since the guard lets only a
  finite positive candidate through.
\<close>

theorem tickPrice_positive:
  assumes "0 < p"
  shows "\<exists>q. tickPrice rnd (Fin p) r = Fin q \<and> 0 < q"
proof -
  have "\<exists>q. guardPrice (Fin p) n = Fin q \<and> 0 < q" for n
    using assms by (cases n) (auto simp: guardPrice_def jle_def)
  then show ?thesis by (simp add: tickPrice_def Let_def)
qed

text \<open>A step from 100 with the random value 0.75, and one whose candidate is \<^verbatim>\<open>NaN\<close>.\<close>

theorem tickPrice_positive_witness:
  "(0::real) < 100 \<and> tickPrice id (Fin 100) (Fin (3 / 4)) = Fin (2501 / 25) \<and>
   (0::real) < 2501 / 25 \<and> tickPrice id (Fin 100) NaN = Fin 100"
  using tickPrice_positive[of 100 id "Fin (3 / 4)"]
  by (simp add: tickPrice_def guardPrice_def jsub_def jle_def fin_id_small)

section \<open>The indicator library\<close>

subsection \<open>Lengths\<close>

lemma length_calcSMA: "length (calcSMA rnd data period) = length data"
  by (simp add: calcSMA_def)

lemma length_ema_loop: "length (ema_loop rnd data period k ema js) = length js"
  by (induction js arbitrary: ema) (simp_all add: Let_def)

lemma length_calcEMA: "length (calcEMA rnd data period) = length data"
  by (simp add: calcEMA_def length_ema_loop)

lemma length_rsi_loop: "length (rsi_loop rnd data period ag al js) = length js"
  by (induction js arbitrary: ag al) (simp_all add: Let_def)

lemma length_rsi_avgs_loop: "length (rsi_avgs_loop rnd data period ag al js) = length js"
  by (induction js arbitrary: ag al) (simp_all add: Let_def)

lemma length_calcRSI: "length (calcRSI rnd data period) = length data"
  by (simp add: calcRSI_def length_rsi_loop Let_def)

lemma length_calcBollinger:
  "length (mid (calcBollinger rnd data period mult)) = length data \<and>
   length (upper (calcBollinger rnd data period mult)) = length data \<and>
   length (lower (calcBollinger rnd data period mult)) = length data"
  by (simp add: calcBollinger_def Let_def length_calcSMA)

subsection \<open>A period that is zero or negative (C6)\<close>

lemma calcSMA_all_some:
  assumes "period \<le> 0"
  shows "list_all is_some (calcSMA rnd data period)"
  using assms by (auto simp: calcSMA_def list_all_iff)

lemma calcSMA_nth_some:
  assumes "period \<le> 0" "i < length data"
  shows "is_some (calcSMA rnd data period ! i)"
  using calcSMA_all_some[OF assms(1), of rnd data] assms(2)
  by (simp add: list_all_length length_calcSMA)

lemma ema_loop_all_some:
  assumes "period \<le> 0"
  shows "\<forall>i\<in>set js. 0 \<le> i \<Longrightarrow> list_all is_some (ema_loop rnd data period k ema js)"
  using assms by (induction js arbitrary: ema) (simp_all add: Let_def)

lemma calcEMA_all_some:
  assumes "period \<le> 0"
  shows "list_all is_some (calcEMA rnd data period)"
  unfolding calcEMA_def by (rule ema_loop_all_some[OF assms]) simp

lemma rsi_loop_all_some:
  assumes "period \<le> 0"
  shows "\<forall>i\<in>set js. 0 \<le> i \<Longrightarrow> list_all is_some (rsi_loop rnd data period ag al js)"
  using assms by (induction js arbitrary: ag al) (simp_all add: Let_def)

lemma calcRSI_all_some:
  assumes "period \<le> 0"
  shows "list_all is_some (calcRSI rnd data period)"
proof (cases "int (length data) < period + 1")
  case True
  then have "length data = 0" using assms by linarith
  then show ?thesis by (simp add: calcRSI_def)
next
  case False
  then show ?thesis
    unfolding calcRSI_def Let_def by (simp add: rsi_loop_all_some[OF assms])
qed

lemma calcBollinger_all_some:
  assumes "period \<le> 0"
  shows "list_all is_some (mid (calcBollinger rnd data period mult)) \<and>
         list_all is_some (upper (calcBollinger rnd data period mult)) \<and>
         list_all is_some (lower (calcBollinger rnd data period mult))"
proof -
  have m: "\<exists>y. calcSMA rnd data period ! nat i = Some y"
    if "i \<in> set [0..int (length data) - 1]" for i
  proof -
    have "nat i < length data" using that by auto
    from calcSMA_nth_some[OF assms this, of rnd] show ?thesis
      by (cases "calcSMA rnd data period ! nat i") simp_all
  qed
  have c: "is_some (case calcSMA rnd data period ! nat i of
                      None \<Rightarrow> None | Some x \<Rightarrow> Some (f x))"
    if "i \<in> set [0..int (length data) - 1]" for i and f :: "jsnum \<Rightarrow> jsnum"
    using m[OF that] by auto
  have u: "list_all is_some (upper (calcBollinger rnd data period mult))"
    unfolding calcBollinger_def Let_def list_all_iff
    by (auto simp del: set_upto intro!: c)
  have l: "list_all is_some (lower (calcBollinger rnd data period mult))"
    unfolding calcBollinger_def Let_def list_all_iff
    by (auto simp del: set_upto intro!: c)
  show ?thesis using u l by (simp add: calcBollinger_def Let_def calcSMA_all_some[OF assms])
qed

lemmas js_eval = calcSMA_def calcEMA_def calcRSI_def calcBollinger_def rsi_avgs_def
  sum_window_def boll_std_def rsi_seed_def rsi_value_def rsi_smooth_def js_nth_def jsub_def
  jpow2_def fin_id_small Let_def upto.simps

text \<open>
  C6, as stated, fails: no indicator function tests its period. With a period of zero
  or less the test \<^verbatim>\<open>i < period - 1\<close> (\<^verbatim>\<open>i < period\<close> in the RSI) is false at every index,
  so every entry is computed and none is the sentinel. On the closes 1, 2, 3 the SMA
  with period 0 is three times \<^verbatim>\<open>NaN\<close> (0 / 0), with period -1 three times 0, and the RSI
  with period -1 three numbers.
\<close>

theorem nonpositive_period_counterexample:
  "calcSMA id [Fin 1, Fin 2, Fin 3] 0 = [Some NaN, Some NaN, Some NaN] \<and>
   calcSMA id [Fin 1, Fin 2, Fin 3] (- 1) = [Some (Fin 0), Some (Fin 0), Some (Fin 0)] \<and>
   calcRSI id [Fin 1, Fin 2, Fin 3] (- 1) =
     [Some (Fin (10000 / 101)), Some (Fin (10000 / 101)), Some (Fin (10000 / 101))]"
  by (simp add: js_eval)

text \<open>
  C6, amended. For every close-price series, every indicator function (SMA, EMA, the
  three Bollinger series, RSI) invoked with a zero or negative period returns, without
  an exception, a series of the same length as the input in which no entry is the
  sentinel: every entry is a number value (which may be \<^verbatim>\<open>NaN\<close>).
\<close>

theorem nonpositive_period_no_sentinel:
  assumes "period \<le> 0"
  shows "length (calcSMA rnd data period) = length data \<and>
         length (calcEMA rnd data period) = length data \<and>
         length (mid (calcBollinger rnd data period mult)) = length data \<and>
         length (upper (calcBollinger rnd data period mult)) = length data \<and>
         length (lower (calcBollinger rnd data period mult)) = length data \<and>
         length (calcRSI rnd data period) = length data \<and>
         list_all is_some (calcSMA rnd data period) \<and>
         list_all is_some (calcEMA rnd data period) \<and>
         list_all is_some (mid (calcBollinger rnd data period mult)) \<and>
         list_all is_some (upper (calcBollinger rnd data period mult)) \<and>
         list_all is_some (lower (calcBollinger rnd data period mult)) \<and>
         list_all is_some (calcRSI rnd data period)"
  using calcBollinger_all_some[OF assms, of rnd data mult]
    length_calcBollinger[of rnd data period mult]
  by (simp add: length_calcSMA length_calcEMA length_calcRSI calcSMA_all_some[OF assms]
      calcEMA_all_some[OF assms] calcRSI_all_some[OF assms])

text \<open>The four functions on the closes 1, 2, 3 with period 0.\<close>

theorem nonpositive_period_witness:
  "(0::int) \<le> 0 \<and>
   calcSMA id [Fin 1, Fin 2, Fin 3] 0 = [Some NaN, Some NaN, Some NaN] \<and>
   calcEMA id [Fin 1, Fin 2, Fin 3] 0 = [Some NaN, Some NaN, Some NaN] \<and>
   calcRSI id [Fin 1, Fin 2, Fin 3] 0 = [Some NaN, Some NaN, Some NaN] \<and>
   list_all is_some (upper (calcBollinger id [Fin 1, Fin 2, Fin 3] 0 (Fin 2))) \<and>
   length (lower (calcBollinger id [Fin 1, Fin 2, Fin 3] 0 (Fin 2))) = 3"
  using nonpositive_period_no_sentinel[of 0 id "[Fin 1, Fin 2, Fin 3]" "Fin 2"]
  by (simp add: js_eval)

subsection \<open>The range of the RSI (C10)\<close>

lemma rsi_seed_nonneg:
  assumes "rounding rnd" "nonneg (fst acc)" "nonneg (snd acc)"
  shows "nonneg (fst (rsi_seed rnd data acc i)) \<and> nonneg (snd (rsi_seed rnd data acc i))"
  using assms by (simp add: rsi_seed_def Let_def nonneg_jadd nonneg_jabs jlt_0_nonneg)

lemma rsi_seed_fold_nonneg:
  assumes "rounding rnd"
  shows "nonneg (fst acc) \<Longrightarrow> nonneg (snd acc) \<Longrightarrow>
     nonneg (fst (foldl (rsi_seed rnd data) acc js)) \<and>
     nonneg (snd (foldl (rsi_seed rnd data) acc js))"
  by (induction js arbitrary: acc) (simp_all add: rsi_seed_nonneg[OF assms])

lemma rsi_smooth_nonneg:
  assumes "rounding rnd" "1 \<le> period" "nonneg avg" "nonneg x"
  shows "nonneg (rsi_smooth rnd period avg x)"
  using assms by (simp add: rsi_smooth_def nonneg_jdiv nonneg_jadd nonneg_jmul)

text \<open>From a relative strength that is not negative to the index.\<close>

lemma rsi_of_rs:
  assumes "rounding rnd" "nonneg rs"
  shows "in_0_100 (jsub rnd (Fin 100) (jdiv rnd (Fin 100) (jadd rnd (Fin 1) rs)))"
proof (cases rs)
  case (Fin r)
  then have r: "0 \<le> r" using assms(2) by simp
  from fin_ge1[OF assms(1), of "1 + r"] r
  consider "fin rnd (1 + r) = PInf" | y where "fin rnd (1 + r) = Fin y" "1 \<le> y" by auto
  then show ?thesis
  proof cases
    case 1
    from fin_0_100[OF assms(1), of 100]
    obtain z where "fin rnd 100 = Fin z" "0 \<le> z" "z \<le> 100" by auto
    then show ?thesis using Fin 1 by (simp add: jsub_def)
  next
    case 2
    have "0 \<le> 100 / y" "100 / y \<le> 100" using 2(2) by (simp_all add: divide_le_eq)
    from fin_0_100[OF assms(1) this]
    obtain z where z: "fin rnd (100 / y) = Fin z" "0 \<le> z" "z \<le> 100" by auto
    have "0 \<le> 100 - z" "100 - z \<le> 100" using z by simp_all
    from fin_0_100[OF assms(1) this]
    obtain w where "fin rnd (100 - z) = Fin w" "0 \<le> w" "w \<le> 100" by auto
    then show ?thesis using Fin 2 z by (simp add: jsub_def)
  qed
next
  case PInf
  from fin_0_100[OF assms(1), of 100]
  obtain z where "fin rnd 100 = Fin z" "0 \<le> z" "z \<le> 100" by auto
  then show ?thesis using PInf by (simp add: jsub_def)
next
  case NInf
  then show ?thesis using assms(2) by simp
next
  case NaN
  then show ?thesis by (simp add: jsub_def)
qed

lemma rsi_value_range:
  assumes "rounding rnd" "nonneg ag" "nonneg al"
  shows "in_0_100 (rsi_value rnd ag al)"
  unfolding rsi_value_def Let_def
  by (rule rsi_of_rs[OF assms(1)]) (simp add: nonneg_jdiv assms)

lemma rsi_loop_range:
  assumes "rounding rnd" "1 \<le> period"
  shows "nonneg ag \<Longrightarrow> nonneg al \<Longrightarrow>
     list_all defined_in_0_100 (rsi_loop rnd data period ag al js)"
proof (induction js arbitrary: ag al)
  case Nil
  then show ?case by simp
next
  case (Cons i js)
  let ?d = "jsub rnd (js_nth data i) (js_nth data (i - 1))"
  let ?g = "if jlt (Fin 0) ?d then ?d else Fin 0"
  let ?l = "if jlt ?d (Fin 0) then jabs ?d else Fin 0"
  have g: "nonneg ?g" by (simp add: jlt_0_nonneg)
  have l: "nonneg ?l" by (simp add: nonneg_jabs)
  have ag': "nonneg (rsi_smooth rnd period ag ?g)"
    by (rule rsi_smooth_nonneg[OF assms Cons.prems(1) g])
  have al': "nonneg (rsi_smooth rnd period al ?l)"
    by (rule rsi_smooth_nonneg[OF assms Cons.prems(2) l])
  show ?case
    using Cons.IH[OF Cons.prems] Cons.IH[OF ag' al'] rsi_value_range[OF assms(1) Cons.prems]
      rsi_value_range[OF assms(1) ag' al']
    by (simp add: Let_def)
qed

text \<open>
  Where the bound 100 is met. On the closes \<open>2^-999\<close>, \<open>2^-1000\<close>, \<open>2^1000\<close> with period 2
  the average gain is about \<open>2^999\<close> and the average loss \<open>2^-1001\<close>; their quotient is
  beyond the largest number, so \<^verbatim>\<open>rs\<close> is \<^verbatim>\<open>Infinity\<close>, \<^verbatim>\<open>100 / (1 + rs)\<close> is 0 and
  the index is exactly 100. This holds under every rounding.
\<close>

lemma calcRSI_reaches_100_rounding:
  assumes R: "rounding rnd"
  shows "calcRSI rnd [Fin (2 powi (- 999)), Fin (2 powi (- 1000)), Fin (2 ^ 1000)] 2 =
     [None, None, Some (Fin 100)]"
proof -
  define P :: "nat \<Rightarrow> real" where "P n = 2 ^ n" for n
  define a :: real where "a = 2 powi (- 1000)"
  have P_pos: "0 < P n" for n by (simp add: P_def)
  have P_Suc: "P (Suc n) = 2 * P n" for n by (simp add: P_def)
  have P_mono: "P n \<le> P m" if "n \<le> m" for n m
    using that by (simp add: P_def power_increasing)
  have P_add: "P n * P m = P (n + m)" for n m by (simp add: P_def power_add)
  have rP: "rnd (P n) = P n" for n
    using rounding_pow2(1)[OF R, of "int n"] by (simp add: P_def)
  have P0: "P 0 = 1" by (simp add: P_def)
  have M_lo: "P 1023 \<le> MAX_VALUE" unfolding P_def by (rule MAX_VALUE_lower)
  have M_hi: "MAX_VALUE < P 1024" unfolding P_def by (rule MAX_VALUE_upper)
  have a_inv: "a = 1 / P 1000" by (simp add: a_def P_def power_int_minus field_simps)
  have a_pos: "0 < a" by (simp add: a_def)
  have a_le: "a \<le> 1" using P_mono[of 0 1000] P_pos[of 1000] by (simp add: a_inv P0)
  have a2: "2 powi (- 999) = 2 * a"
    using power_int_add[of "2::real" 1 "- 1000"] by (simp add: a_def)
  have ahalf: "a / 2 = 2 powi (- 1001)"
    using power_int_add[of "2::real" "- 1" "- 1000"] by (simp add: a_def power_int_minus)
  have ahalf_inv: "a / 2 = 1 / P 1001"
    using P_Suc[of 1000] by (simp add: a_inv)
  have B: "(2::real) ^ 1000 = P 1000" by (simp only: P_def)
  have M1: "P 1000 \<le> MAX_VALUE" using M_lo P_mono[of 1000 1023] by linarith
  have M0: "1 \<le> MAX_VALUE" using MAX_VALUE_ge by simp
  have M2: "MAX_VALUE < P 1999" using M_hi P_mono[of 1024 1999] by linarith
  have ra: "rnd a = a" "rnd (- a) = - a"
    using rounding_pow2[OF R, of "- 1000"] by (simp_all add: a_def)
  have rah: "rnd (a / 2) = a / 2"
    using rounding_pow2(1)[OF R, of "- 1001"] by (simp add: ahalf)
  have d1: "fin rnd (- a) = Fin (- a)"
    using a_pos a_le M0 by (simp add: fin_def ra)
  have al0: "fin rnd a = Fin a"
    using a_pos a_le M0 by (simp add: fin_def ra)
  define y where "y = rnd (P 1000 - a)"
  have yb: "P 999 \<le> y" "y \<le> P 1000"
  proof -
    have "P 999 \<le> P 1000 - a" using a_le P_Suc[of 999] P_mono[of 0 999] by (simp add: P0)
    from rounding_mono[OF R this] show "P 999 \<le> y" by (simp add: y_def rP)
    have "P 1000 - a \<le> P 1000" using a_pos by simp
    from rounding_mono[OF R this] show "y \<le> P 1000" by (simp add: y_def rP)
  qed
  have y_pos: "0 < y" using yb(1) P_pos[of 999] by linarith
  have d2: "fin rnd (P 1000 - a) = Fin y"
    using yb M1 y_pos by (simp add: fin_def y_def[symmetric])
  define y' where "y' = rnd y"
  have y'b: "P 999 \<le> y'" "y' \<le> P 1000"
    using rounding_mono[OF R yb(1)] rounding_mono[OF R yb(2)] by (simp_all add: y'_def rP)
  have y'_pos: "0 < y'" using y'b(1) P_pos[of 999] by linarith
  have ag0: "fin rnd y = Fin y'"
    using y'b M1 y'_pos by (simp add: fin_def y'_def[symmetric])
  define z where "z = rnd (y' / 2)"
  have zb: "P 998 \<le> z" "z \<le> P 999"
  proof -
    have "P 998 \<le> y' / 2" "y' / 2 \<le> P 999" using y'b P_Suc[of 998] P_Suc[of 999] by simp_all
    from rounding_mono[OF R this(1)] rounding_mono[OF R this(2)]
    show "P 998 \<le> z" "z \<le> P 999" by (simp_all add: z_def rP)
  qed
  have z_pos: "0 < z" using zb(1) P_pos[of 998] by linarith
  have ag: "fin rnd (y' / 2) = Fin z"
    using zb M1 P_mono[of 999 1000] z_pos by (simp add: fin_def z_def[symmetric])
  have al: "fin rnd (a / 2) = Fin (a / 2)"
    using a_pos a_le M0 by (simp add: fin_def rah)
  have "z / (a / 2) = z * P 1001"
    using P_pos[of 1001] by (simp add: ahalf_inv)
  moreover have "P 998 * P 1001 = P 1999" using P_add[of 998 1001] by simp
  ultimately have "P 1999 \<le> z / (a / 2)"
    using mult_right_mono[OF zb(1), of "P 1001"] P_pos[of 1001] by simp
  from rounding_mono[OF R this] have "MAX_VALUE < rnd (z / (a / 2))"
    using M2 by (simp add: rP)
  then have rs: "fin rnd (z / (a / 2)) = PInf" by (simp add: fin_def)
  have r100: "fin rnd 100 = Fin 100"
    using MAX_VALUE_ge by (simp add: fin_def rounding_100[OF R])
  have seed: "foldl (rsi_seed rnd [Fin (2 * a), Fin a, Fin (P 1000)]) (Fin 0, Fin 0) [1..2] =
                (Fin y', Fin a)"
    using a_pos y_pos
    by (simp add: upto.simps rsi_seed_def js_nth_def jsub_def d1 al0 d2 ag0 Let_def)
  have nz: "a / 2 \<noteq> 0" using a_pos by simp
  have "calcRSI rnd [Fin (2 * a), Fin a, Fin (P 1000)] 2 =
          rsi_loop rnd [Fin (2 * a), Fin a, Fin (P 1000)] 2 (Fin z) (Fin (a / 2)) [0..2]"
    by (simp add: calcRSI_def seed ag al)
  also have "\<dots> = [None, None, Some (Fin 100)]"
    using nz rs by (simp add: upto.simps rsi_value_def r100 jsub_def)
  finally show ?thesis
    unfolding a2 a_def[symmetric] B .
qed

text \<open>
  Where the result is not a number. On the closes \<open>-2^1023\<close>, \<open>2^1023\<close>, \<open>-2^1023\<close> with
  period 2 both differences overflow, both averages are \<^verbatim>\<open>Infinity\<close>, and their quotient
  is \<^verbatim>\<open>NaN\<close>.
\<close>

lemma calcRSI_NaN_rounding:
  assumes R: "rounding rnd"
  shows "calcRSI rnd [Fin (- (2 ^ 1023)), Fin (2 ^ 1023), Fin (- (2 ^ 1023))] 2 =
     [None, None, Some NaN]"
proof -
  define P :: "nat \<Rightarrow> real" where "P n = 2 ^ n" for n
  have P_pos: "0 < P n" for n by (simp add: P_def)
  have P_Suc: "P (Suc n) = 2 * P n" for n by (simp add: P_def)
  have rP: "rnd (P n) = P n" "rnd (- P n) = - P n" for n
    using rounding_pow2[OF R, of "int n"] by (simp_all add: P_def)
  have M_hi: "MAX_VALUE < P 1024" unfolding P_def by (rule MAX_VALUE_upper)
  have B: "(2::real) ^ 1023 = P 1023" by (simp only: P_def)
  have dbl: "P 1023 + P 1023 = P 1024" using P_Suc[of 1023] by simp
  have up: "fin rnd (P 1023 + P 1023) = PInf"
    using M_hi by (simp add: dbl fin_def rP)
  have "- P 1023 - P 1023 = - P 1024" using dbl by simp
  then have dn: "fin rnd (- P 1023 - P 1023) = NInf"
    using M_hi P_pos[of 1024] MAX_VALUE_ge by (simp add: fin_def rP Let_def)
  have seed: "foldl (rsi_seed rnd [Fin (- P 1023), Fin (P 1023), Fin (- P 1023)])
                (Fin 0, Fin 0) [1..2] = (PInf, PInf)"
    using up dn by (simp add: upto.simps rsi_seed_def js_nth_def jsub_def Let_def)
  have "calcRSI rnd [Fin (- P 1023), Fin (P 1023), Fin (- P 1023)] 2 =
          rsi_loop rnd [Fin (- P 1023), Fin (P 1023), Fin (- P 1023)] 2 PInf PInf [0..2]"
    by (simp add: calcRSI_def seed)
  also have "\<dots> = [None, None, Some NaN]"
    by (simp add: upto.simps rsi_value_def jsub_def)
  finally show ?thesis unfolding B .
qed

text \<open>
  C10, as stated, fails: on the three finite closes \<open>2^-999\<close>, \<open>2^-1000\<close>, \<open>2^1000\<close> and
  period 2 the defined value is exactly 100.
\<close>

theorem calcRSI_reaches_100:
  "calcRSI id [Fin (2 powi (- 999)), Fin (2 powi (- 1000)), Fin (2 ^ 1000)] 2 =
     [None, None, Some (Fin 100)]"
  by (rule calcRSI_reaches_100_rounding[OF rounding_id])

text \<open>
  C10, amended. For every close-price series (of finite values or not), every period
  \<open>\<ge> 1\<close> and every rounding of the arithmetic, every defined value returned by
  \<^verbatim>\<open>calcRSI\<close> is \<^verbatim>\<open>NaN\<close> or lies in the closed interval from 0 to 100: it is never
  negative and never above 100, and it can be exactly 100.
\<close>

theorem calcRSI_range:
  assumes "rounding rnd" "1 \<le> period"
  shows "list_all defined_in_0_100 (calcRSI rnd data period)"
proof (cases "int (length data) < period + 1")
  case True
  then show ?thesis by (simp add: calcRSI_def list_all_iff)
next
  case False
  let ?acc = "foldl (rsi_seed rnd data) (Fin 0, Fin 0) [1..period]"
  have acc: "nonneg (fst ?acc) \<and> nonneg (snd ?acc)"
    by (rule rsi_seed_fold_nonneg[OF assms(1)]) simp_all
  have p: "nonneg (Fin (real_of_int period))" using assms(2) by simp
  have "nonneg (jdiv rnd (fst ?acc) (Fin (real_of_int period)))"
       "nonneg (jdiv rnd (snd ?acc) (Fin (real_of_int period)))"
    using acc p by (simp_all add: nonneg_jdiv[OF assms(1)])
  from rsi_loop_range[OF assms this] show ?thesis using False
    by (simp add: calcRSI_def Let_def)
qed

text \<open>The closes 1, 2, 1, 3 with period 2, in exact arithmetic.\<close>

theorem calcRSI_range_witness:
  "rounding id \<and> (1::int) \<le> 2 \<and>
   calcRSI id [Fin 1, Fin 2, Fin 1, Fin 3] 2 = [None, None, Some (Fin 50), Some (Fin (250 / 3))] \<and>
   list_all defined_in_0_100 (calcRSI id [Fin 1, Fin 2, Fin 1, Fin 3] 2)"
  using calcRSI_range[OF rounding_id, of 2 "[Fin 1, Fin 2, Fin 1, Fin 3]"] rounding_id
  by (simp add: js_eval)

subsection \<open>The RSI where the average loss is zero (C5)\<close>

text \<open>The entry of an index from the averages of that index.\<close>

lemma rsi_loop_avgs:
  "i < length js \<Longrightarrow> period \<le> js ! i \<Longrightarrow>
     rsi_loop rnd data period ag al js ! i =
       Some (rsi_value rnd (fst (rsi_avgs_loop rnd data period ag al js ! i))
                           (snd (rsi_avgs_loop rnd data period ag al js ! i)))"
proof (induction js arbitrary: ag al i)
  case Nil
  then show ?case by simp
next
  case (Cons j js)
  show ?case
  proof (cases i)
    case 0
    then show ?thesis using Cons.prems by (simp add: Let_def)
  next
    case (Suc k)
    then have "k < length js" "period \<le> js ! k" using Cons.prems by simp_all
    from Cons.IH[OF this] show ?thesis by (simp add: Suc Let_def)
  qed
qed

lemma nth_upto0: "i < n \<Longrightarrow> [0..int n - 1] ! i = int i"
  using nth_upto[of 0 i "int n - 1"] by simp

lemma calcRSI_nth:
  assumes "i < length data" "period \<le> int i"
  shows "calcRSI rnd data period ! i =
     Some (rsi_value rnd (fst (rsi_avgs rnd data period ! i))
                         (snd (rsi_avgs rnd data period ! i)))"
proof -
  have big: "\<not> int (length data) < period + 1" using assms by linarith
  have i: "i < length [0..int (length data) - 1]" "period \<le> [0..int (length data) - 1] ! i"
    using assms by (simp_all add: nth_upto0)
  show ?thesis
    using big rsi_loop_avgs[OF i] by (simp add: calcRSI_def rsi_avgs_def Let_def)
qed

text \<open>
  With a zero average loss the code takes \<^verbatim>\<open>rs = 100\<close>, and the index is
  \<open>100 - 100 / 101\<close>, rounded: a value between 99 and 99.5 under every rounding.
\<close>

lemma rsi_value_zero_loss:
  assumes "rounding rnd"
  shows "\<exists>w. rsi_value rnd ag (Fin 0) = Fin w \<and> 99 \<le> w \<and> w \<le> 199 / 2"
proof -
  have r101: "rnd 101 = 101" using rounding_int[OF assms, of 101] by simp
  have r99: "rnd 99 = 99" using rounding_int[OF assms, of 99] by simp
  have rhalf: "rnd (1 / 2) = 1 / 2"
    using rounding_grid[OF assms, of 1 "- 1"] by (simp add: power_int_minus)
  have r995: "rnd (199 / 2) = 199 / 2"
    using rounding_grid[OF assms, of 199 "- 1"] by (simp add: power_int_minus)
  define q where "q = rnd (100 / 101)"
  have q: "1 / 2 \<le> q" "q \<le> 1"
    using rounding_mono[OF assms, of "1 / 2" "100 / 101"]
      rounding_mono[OF assms, of "100 / 101" 1]
    by (simp_all add: q_def rhalf rounding_1[OF assms])
  define w where "w = rnd (100 - q)"
  have w: "99 \<le> w" "w \<le> 199 / 2"
    using rounding_mono[OF assms, of 99 "100 - q"]
      rounding_mono[OF assms, of "100 - q" "199 / 2"] q
    by (simp_all add: w_def r99 r995)
  have 1: "fin rnd 101 = Fin 101" using MAX_VALUE_ge by (simp add: fin_def r101)
  have 2: "fin rnd (100 / 101) = Fin q"
    using MAX_VALUE_ge q by (simp add: fin_def q_def[symmetric])
  have 3: "fin rnd (100 - q) = Fin w"
    using MAX_VALUE_ge w by (simp add: fin_def w_def[symmetric])
  have "rsi_value rnd ag (Fin 0) = Fin w"
    by (simp add: rsi_value_def jsub_def 1 2 3)
  then show ?thesis using w by blast
qed

lemma rsi_value_zero_loss_exact: "rsi_value id ag (Fin 0) = Fin (10000 / 101)"
  by (simp add: rsi_value_def jsub_def fin_id_small)

subsection \<open>A strictly increasing series has no loss\<close>

lemma fin_zero: "rounding rnd \<Longrightarrow> fin rnd 0 = Fin 0"
  using MAX_VALUE_ge by (simp add: fin_def rounding_0)

lemma diff_increasing:
  assumes "rounding rnd" "sorted_wrt (<) xs" "1 \<le> i" "i < int (length xs)"
  shows "nonneg (jsub rnd (js_nth (map Fin xs) i) (js_nth (map Fin xs) (i - 1))) \<and>
         jsub rnd (js_nth (map Fin xs) i) (js_nth (map Fin xs) (i - 1)) \<noteq> NaN"
proof -
  have lt: "xs ! nat (i - 1) < xs ! nat i"
    using assms(2-4) by (auto simp: sorted_wrt_iff_nth_less)
  have "jsub rnd (js_nth (map Fin xs) i) (js_nth (map Fin xs) (i - 1)) =
          fin rnd (xs ! nat i - xs ! nat (i - 1))"
    using assms(3,4) by (simp add: js_nth_def jsub_def)
  moreover have "nonneg (fin rnd (xs ! nat i - xs ! nat (i - 1)))"
    using lt by (intro fin_nonneg[OF assms(1)]) simp
  moreover have "fin rnd z \<noteq> NaN" for z by (simp add: fin_def Let_def)
  ultimately show ?thesis by simp
qed

lemma no_loss_step:
  assumes "rounding rnd" "nonneg d" "d \<noteq> NaN"
  shows "\<not> jlt (Fin 0) d \<longrightarrow> jadd rnd (Fin 0) (jabs d) = Fin 0" "\<not> jlt d (Fin 0)"
  using assms by (cases d; simp add: fin_zero)+

lemma rsi_seed_no_loss:
  assumes "rounding rnd" "sorted_wrt (<) xs"
  shows "\<forall>i\<in>set js. 1 \<le> i \<and> i < int (length xs) \<Longrightarrow> snd acc = Fin 0 \<Longrightarrow>
     snd (foldl (rsi_seed rnd (map Fin xs)) acc js) = Fin 0"
proof (induction js arbitrary: acc)
  case Nil
  then show ?case by simp
next
  case (Cons i js)
  have d: "nonneg (jsub rnd (js_nth (map Fin xs) i) (js_nth (map Fin xs) (i - 1)))"
      "jsub rnd (js_nth (map Fin xs) i) (js_nth (map Fin xs) (i - 1)) \<noteq> NaN"
    using diff_increasing[OF assms, of i] Cons.prems(1) by simp_all
  have "snd (rsi_seed rnd (map Fin xs) acc i) = Fin 0"
    using no_loss_step(1)[OF assms(1) d] Cons.prems(2) by (simp add: rsi_seed_def Let_def)
  then show ?case using Cons.IH[of "rsi_seed rnd (map Fin xs) acc i"] Cons.prems(1) by simp
qed

lemma rsi_smooth_zero:
  assumes "rounding rnd" "period \<noteq> 0"
  shows "rsi_smooth rnd period (Fin 0) (Fin 0) = Fin 0"
  using assms by (simp add: rsi_smooth_def fin_zero)

lemma rsi_avgs_loop_no_loss:
  assumes "rounding rnd" "sorted_wrt (<) xs" "1 \<le> period"
  shows "\<forall>i\<in>set js. 0 \<le> i \<and> i < int (length xs) \<Longrightarrow>
     \<forall>s\<in>set (rsi_avgs_loop rnd (map Fin xs) period ag (Fin 0) js). snd s = Fin 0"
proof (induction js arbitrary: ag)
  case Nil
  then show ?case by simp
next
  case (Cons i js)
  show ?case
  proof (cases "i \<le> period")
    case True
    then show ?thesis using Cons.IH[of ag] Cons.prems by auto
  next
    case False
    then have i: "1 \<le> i" "i < int (length xs)" using assms(3) Cons.prems by auto
    have d: "nonneg (jsub rnd (js_nth (map Fin xs) i) (js_nth (map Fin xs) (i - 1)))"
      "jsub rnd (js_nth (map Fin xs) i) (js_nth (map Fin xs) (i - 1)) \<noteq> NaN"
      using diff_increasing[OF assms(1,2) i] by simp_all
    have p: "period \<noteq> 0" using assms(3) by simp
    show ?thesis
      using False no_loss_step(2)[OF assms(1) d] rsi_smooth_zero[OF assms(1) p] Cons.IH Cons.prems
      by (simp add: Let_def)
  qed
qed

lemma rsi_avgs_increasing:
  assumes "rounding rnd" "sorted_wrt (<) xs" "1 \<le> period" "i < length xs" "period \<le> int i"
  shows "snd (rsi_avgs rnd (map Fin xs) period ! i) = Fin 0"
proof -
  have big: "\<not> int (length (map Fin xs)) < period + 1" using assms(4,5) by simp
  let ?acc = "foldl (rsi_seed rnd (map Fin xs)) (Fin 0, Fin 0) [1..period]"
  have "snd ?acc = Fin 0"
    by (rule rsi_seed_no_loss[OF assms(1,2)]) (use big in auto)
  then have al: "jdiv rnd (snd ?acc) (Fin (real_of_int period)) = Fin 0"
    using assms(3) by (simp add: fin_zero[OF assms(1)])
  let ?l = "rsi_avgs_loop rnd (map Fin xs) period
              (jdiv rnd (fst ?acc) (Fin (real_of_int period))) (Fin 0) [0..int (length xs) - 1]"
  have all: "\<forall>s\<in>set ?l. snd s = Fin 0"
    by (rule rsi_avgs_loop_no_loss[OF assms(1-3)]) auto
  have "i < length ?l" using assms(4) by (simp add: length_rsi_avgs_loop)
  then have "snd (?l ! i) = Fin 0" using all by (meson nth_mem)
  then show ?thesis using big al by (simp add: rsi_avgs_def Let_def)
qed

text \<open>
  So on a strictly increasing series of finite closes every defined RSI value is the
  value of \<open>100 - 100 / 101\<close>: the series does not approach 100.
\<close>

lemma calcRSI_increasing:
  assumes "rounding rnd" "sorted_wrt (<) xs" "1 \<le> period" "i < length xs" "period \<le> int i"
  shows "\<exists>w. calcRSI rnd (map Fin xs) period ! i = Some (Fin w) \<and> 99 \<le> w \<and> w \<le> 199 / 2 \<and>
             (rnd = id \<longrightarrow> w = 10000 / 101)"
proof -
  let ?ag = "fst (rsi_avgs rnd (map Fin xs) period ! i)"
  have c: "calcRSI rnd (map Fin xs) period ! i = Some (rsi_value rnd ?ag (Fin 0))"
    using calcRSI_nth[of i "map Fin xs" period rnd] rsi_avgs_increasing[OF assms] assms(4,5)
    by simp
  from rsi_value_zero_loss[OF assms(1), of ?ag]
  obtain w where w: "rsi_value rnd ?ag (Fin 0) = Fin w" "99 \<le> w" "w \<le> 199 / 2" by blast
  have "w = 10000 / 101" if "rnd = id"
    using w(1) rsi_value_zero_loss_exact[of ?ag] that by simp
  then show ?thesis by (intro exI[of _ w]) (use c w in simp)
qed

subsection \<open>The value at a zero average loss\<close>

text \<open>
  C5 fails of the code. The specification (4.3) treats a zero average loss as a relative
  strength that tends to infinity, that is an RSI of 100. The guard
  \<^verbatim>\<open>al === 0 ? 100 : ag / al\<close> puts the 100 into the relative strength instead of the
  index. On the strictly increasing closes 1, 2, 3 with period 1 the smoothed average
  loss is zero at both defined indices and the value returned there is \<open>10000 / 101\<close>
  (99.0099...), not 100; so it is on the closes 1, ..., 16 with the period 14 that the
  chart passes.
\<close>

theorem calcRSI_zero_loss_failing_input:
  "snd (rsi_avgs id [Fin 1, Fin 2, Fin 3] 1 ! 1) = Fin 0 \<and>
   snd (rsi_avgs id [Fin 1, Fin 2, Fin 3] 1 ! 2) = Fin 0 \<and>
   calcRSI id [Fin 1, Fin 2, Fin 3] 1 =
     [None, Some (Fin (10000 / 101)), Some (Fin (10000 / 101))] \<and>
   calcRSI id (map Fin [1, 2, 3, 4, 5, 6, 7, 8, 9, 10, 11, 12, 13, 14, 15, 16]) 14 ! 14 =
     Some (Fin (10000 / 101)) \<and>
   calcRSI id (map Fin [1, 2, 3, 4, 5, 6, 7, 8, 9, 10, 11, 12, 13, 14, 15, 16]) 14 ! 15 =
     Some (Fin (10000 / 101)) \<and>
   Fin (10000 / 101) \<noteq> Fin 100"
proof -
  let ?xs = "[1, 2, 3, 4, 5, 6, 7, 8, 9, 10, 11, 12, 13, 14, 15, 16] :: real list"
  have s: "sorted_wrt (<) ?xs" by simp
  have a: "calcRSI id (map Fin ?xs) 14 ! 14 = Some (Fin (10000 / 101))"
    using calcRSI_increasing[OF rounding_id s, of 14 14] by auto
  have b: "calcRSI id (map Fin ?xs) 14 ! 15 = Some (Fin (10000 / 101))"
    using calcRSI_increasing[OF rounding_id s, of 14 15] by auto
  have c: "snd (rsi_avgs id [Fin 1, Fin 2, Fin 3] 1 ! 1) = Fin 0 \<and>
      snd (rsi_avgs id [Fin 1, Fin 2, Fin 3] 1 ! 2) = Fin 0 \<and>
      calcRSI id [Fin 1, Fin 2, Fin 3] 1 =
        [None, Some (Fin (10000 / 101)), Some (Fin (10000 / 101))]"
    by (simp add: js_eval)
  show ?thesis using a b c by simp
qed

text \<open>
  C5, the extent of the divergence. For every close-price series and every period, at
  every index from the period on where the smoothed average loss of the RSI computation
  is zero, \<^verbatim>\<open>calcRSI\<close> returns the value of \<open>100 - 100 / (1 + 100)\<close>: \<open>10000 / 101\<close> in
  exact arithmetic, and under every rounding a number between 99 and 99.5. At no such
  index does the code return the 100 that the specification asks for.
\<close>

theorem calcRSI_zero_loss:
  assumes "rounding rnd" "i < length data" "period \<le> int i"
    "snd (rsi_avgs rnd data period ! i) = Fin 0"
  shows "\<exists>w. calcRSI rnd data period ! i = Some (Fin w) \<and> 99 \<le> w \<and> w \<le> 199 / 2 \<and>
             (rnd = id \<longrightarrow> w = 10000 / 101)"
proof -
  let ?ag = "fst (rsi_avgs rnd data period ! i)"
  have c: "calcRSI rnd data period ! i = Some (rsi_value rnd ?ag (Fin 0))"
    using calcRSI_nth[OF assms(2,3), of rnd] assms(4) by simp
  from rsi_value_zero_loss[OF assms(1), of ?ag]
  obtain w where w: "rsi_value rnd ?ag (Fin 0) = Fin w" "99 \<le> w" "w \<le> 199 / 2" by blast
  have "w = 10000 / 101" if "rnd = id"
    using w(1) rsi_value_zero_loss_exact[of ?ag] that by simp
  then show ?thesis by (intro exI[of _ w]) (use c w in simp)
qed

text \<open>The last index of the closes 1, 2, 3 with period 1, in exact arithmetic.\<close>

theorem calcRSI_zero_loss_witness:
  "rounding id \<and> (2::nat) < length [Fin 1, Fin 2, Fin 3] \<and> (1::int) \<le> int 2 \<and>
   snd (rsi_avgs id [Fin 1, Fin 2, Fin 3] 1 ! 2) = Fin 0 \<and>
   calcRSI id [Fin 1, Fin 2, Fin 3] 1 ! 2 = Some (Fin (10000 / 101))"
proof -
  have z: "snd (rsi_avgs id [Fin 1, Fin 2, Fin 3] 1 ! 2) = Fin 0"
    by (simp add: js_eval)
  from calcRSI_zero_loss[OF rounding_id _ _ z] show ?thesis using z rounding_id by auto
qed

section \<open>The viewport (C8)\<close>

lemma visibleCount_range: "visibleCount zi = Some vc \<Longrightarrow> 20 \<le> vc \<and> vc \<le> 200"
proof -
  assume a: "visibleCount zi = Some vc"
  then have r: "0 \<le> zi" "zi < 7"
    by (auto simp: visibleCount_def ZOOM_LEVELS_def split: if_splits)
  then have "zi \<in> {0, 1, 2, 3, 4, 5, 6}" by auto
  then show ?thesis using a by (auto simp: visibleCount_def ZOOM_LEVELS_def)
qed

lemma length_js_slice:
  assumes "0 \<le> start" "start \<le> stop" "stop \<le> int (length xs)"
  shows "length (js_slice xs start stop) = nat (stop - start)"
proof -
  have "length (take (nat (stop - start)) (drop (nat start) xs)) = nat (stop - start)"
    using assms by (simp add: min_def) linarith
  then show ?thesis using assms by (simp add: js_slice_def Let_def min_def)
qed

text \<open>
  C8. For every valid zoom index, every scroll offset \<open>\<ge> 0\<close> and every series: with
  \<open>visibleCount = ZOOM_LEVELS[zoomIndex]\<close>, \<open>maxOffset = max(0, totalCandles - visibleCount)\<close>
  and the effective offset of the code, \<open>min(scrollOffset, maxOffset)\<close>, the effective
  offset is \<open>clamp(scrollOffset, 0, maxOffset)\<close>, it lies between 0 and \<open>maxOffset\<close>, and the
  visible slice has exactly \<open>min(visibleCount, totalCandles)\<close> candles.
\<close>

theorem viewport_invariant:
  assumes "visibleCount zi = Some vc" "0 \<le> so"
  shows "0 \<le> clampedOffset so (maxOffset (int (length candles)) vc) \<and>
         clampedOffset so (maxOffset (int (length candles)) vc) \<le>
           maxOffset (int (length candles)) vc \<and>
         clampedOffset so (maxOffset (int (length candles)) vc) =
           max 0 (min so (maxOffset (int (length candles)) vc)) \<and>
         length (displayCandles candles vc so) = nat (min vc (int (length candles)))"
proof -
  let ?n = "int (length candles)"
  let ?mo = "maxOffset ?n vc"
  let ?co = "clampedOffset so ?mo"
  have vc: "0 < vc" using visibleCount_range[OF assms(1)] by simp
  have mo: "0 \<le> ?mo" by (simp add: maxOffset_def)
  have co: "0 \<le> ?co" "?co \<le> ?mo" using assms(2) mo by (simp_all add: clampedOffset_def)
  have clamp: "?co = max 0 (min so ?mo)" using assms(2) mo by (simp add: clampedOffset_def)
  have e: "0 \<le> ?n - ?co" "?n - ?co \<le> ?n"
    using co vc by (auto simp: maxOffset_def clampedOffset_def min_def max_def)
  have len: "length (displayCandles candles vc so) = nat ((?n - ?co) - max 0 (?n - ?co - vc))"
    unfolding displayCandles_def Let_def
    by (rule length_js_slice) (use e vc in auto)
  have "(?n - ?co) - max 0 (?n - ?co - vc) = min vc ?n"
    using assms(2) vc by (auto simp: maxOffset_def clampedOffset_def min_def max_def)
  then show ?thesis using co clamp len by simp
qed

text \<open>
  The default zoom on the full series with an offset far past the history, and on a
  series shorter than the window.
\<close>

theorem viewport_invariant_witness:
  "visibleCount 4 = Some 100 \<and> (0::int) \<le> 1000000 \<and>
   clampedOffset 1000000 (maxOffset 500 100) = 400 \<and>
   length (displayCandles series500 100 1000000) = 100 \<and>
   length (displayCandles [1, 2, 3 :: int] 100 7) = 3"
proof -
  have v: "visibleCount 4 = Some 100" by (simp add: visibleCount_def ZOOM_LEVELS_def)
  have l: "int (length series500) = 500" by (simp add: series500_def)
  from viewport_invariant[OF v, of 1000000 series500]
    viewport_invariant[OF v, of 7 "[1, 2, 3 :: int]"]
  show ?thesis
    by (simp add: v l maxOffset_def clampedOffset_def)
qed

text \<open>Every navigation operation keeps the zoom index valid and the offset at least 0.\<close>

lemma nav_step_ok:
  assumes "viewport_ok v"
  shows "\<exists>v'. nav_step totalCandles v a = Some v' \<and> viewport_ok v'"
proof -
  obtain vc where vc: "visibleCount (zoomIndex v) = Some vc"
    using assms by (auto simp: viewport_ok_def visibleCount_def)
  have "0 \<le> maxOffset totalCandles vc" by (simp add: maxOffset_def)
  then show ?thesis using assms vc
    by (cases a) (auto simp: nav_step_def viewport_ok_def ZOOM_LEVELS_def Let_def)
qed

lemma nav_run_ok:
  "viewport_ok v \<Longrightarrow> \<exists>v'. nav_run v steps = Some v' \<and> viewport_ok v'"
proof (induction steps arbitrary: v)
  case Nil
  then show ?case by simp
next
  case (Cons s steps)
  obtain n a where s: "s = (n, a)" by (cases s)
  from nav_step_ok[OF Cons.prems, of n a]
  obtain v1 where v1: "nav_step n v a = Some v1" "viewport_ok v1" by auto
  from Cons.IH[OF v1(2)] show ?case by (simp add: s v1(1))
qed

lemma initial_viewport_ok: "viewport_ok initial_viewport"
  by (simp add: viewport_ok_def initial_viewport_def ZOOM_LEVELS_def)

section \<open>The price axis (C9)\<close>

subsection \<open>Rounding errors\<close>

lemma accurate_id: "accurate id"
  by (simp add: accurate_def)

lemma accurate_err:
  "accurate rnd \<Longrightarrow> \<bar>rnd x - x\<bar> \<le> \<bar>x\<bar> / 2 ^ 53 + 1 / 2 ^ 1075"
  by (simp add: accurate_def)

lemma fin_Fin: "\<bar>y\<bar> \<le> 2 ^ 1023 \<Longrightarrow> rnd x = y \<Longrightarrow> fin rnd x = Fin y"
  using MAX_VALUE_lower by (auto simp: fin_def Let_def)

subsection \<open>The round trip on the reals\<close>

text \<open>
  The nine rounded operations of \<^verbatim>\<open>yToPrice(priceToY(p))\<close> on a range \<open>[l, h]\<close> whose
  rounded width \<open>R\<close> is positive, with a relative error \<open>u\<close> and an absolute error \<open>eta\<close>
  per operation. The price as a fraction of the range, and the pixel as a fraction of
  the plot height, stay between 0 and 1 because rounding is monotone; the errors of the
  operations add up to at most \<open>39 u h\<close>.
\<close>

lemma round_trip_real:
  fixes l h p M u eta :: real
  assumes r: "rounding rnd"
    and E: "\<And>x. \<bar>rnd x - x\<bar> \<le> u * \<bar>x\<bar> + eta"
    and u: "0 < u" "u \<le> 1 / 1000" and eta: "0 < eta" "eta \<le> u" "4 * eta \<le> u * h"
    and l: "0 \<le> l" "l \<le> p" "p \<le> h"
    and R: "R = rnd (h - l)" "0 < R"
    and M: "1 \<le> M" "rnd M = M" "rnd (6 + M) = 6 + M"
    and a: "a = rnd (p - l)" and b: "b = rnd (a / R)" and c: "c = rnd (b * M)"
    and y: "y = rnd (6 + M - c)" and d: "d = rnd (y - 6)" and e: "e = rnd (d / M)"
    and f: "f = rnd (e * R)" and p': "p' = rnd (h - f)"
  shows "0 \<le> a \<and> a \<le> R" "0 \<le> b \<and> b \<le> 1" "0 \<le> c \<and> c \<le> M" "6 \<le> y \<and> y \<le> 6 + M"
    "0 \<le> d \<and> d \<le> M" "0 \<le> e \<and> e \<le> 1" "R \<le> 2 * h" "0 \<le> f \<and> f \<le> 3 * h" "\<bar>p'\<bar> \<le> 3 * h"
    "\<bar>p' - p\<bar> \<le> 64 * u * h"
proof -
  have r0: "rnd 0 = 0" and r1: "rnd 1 = 1" using rounding_0[OF r] rounding_1[OF r] by simp_all
  have r6: "rnd 6 = 6" using rounding_int[OF r, of 6] by simp
  have h0: "0 \<le> h" using l by linarith
  define D where "D = h - l"
  have D: "0 \<le> D" "D \<le> h" using l by (simp_all add: D_def)
  define e0 where "e0 = R - D"
  have e0: "\<bar>e0\<bar> \<le> u * h + eta"
  proof -
    have "\<bar>e0\<bar> \<le> u * \<bar>D\<bar> + eta" using E[of "h - l"] by (simp add: e0_def R D_def)
    moreover have "u * \<bar>D\<bar> \<le> u * h" using D u by (simp add: mult_left_mono)
    ultimately show ?thesis by linarith
  qed
  have uh: "0 \<le> u * h" using u h0 by simp
  have Rh: "R \<le> 2 * h"
  proof -
    have "R \<le> D + u * h + eta" using e0 by (simp add: e0_def abs_le_iff)
    moreover have "u * h \<le> h / 1000" using u h0 mult_right_mono[of u "1 / 1000" h] by simp
    moreover have "eta \<le> h / 1000"
      using eta(3) \<open>u * h \<le> h / 1000\<close> eta(1) by linarith
    ultimately show ?thesis using D h0 by linarith
  qed
  have uR: "0 \<le> u * R" "u * R \<le> 2 * (u * h)" "eta * R \<le> u * R"
    using u R(2) Rh eta mult_left_mono[of R "2 * h" u] mult_right_mono[of eta u R] by simp_all
  \<comment> \<open>the price as a fraction of the range\<close>
  have pl: "0 \<le> p - l" "p - l \<le> h - l" using l by simp_all
  have a01: "0 \<le> a" "a \<le> R"
    using rounding_mono[OF r pl(1)] rounding_mono[OF r pl(2)] by (simp_all add: a R r0)
  define e1 where "e1 = a - (p - l)"
  have e1: "\<bar>e1\<bar> \<le> u * h + eta"
  proof -
    have "\<bar>e1\<bar> \<le> u * \<bar>p - l\<bar> + eta" using E[of "p - l"] by (simp add: e1_def a)
    moreover have "u * \<bar>p - l\<bar> \<le> u * h" using pl D u by (simp add: mult_left_mono D_def)
    ultimately show ?thesis by linarith
  qed
  define t where "t = a / R"
  have t01: "0 \<le> t" "t \<le> 1" using a01 R(2) by (simp_all add: t_def)
  have b01: "0 \<le> b" "b \<le> 1"
    using rounding_mono[OF r t01(1)] rounding_mono[OF r t01(2)] by (simp_all add: b t_def r0 r1)
  define e2 where "e2 = b - t"
  have e2: "\<bar>e2\<bar> \<le> u + eta"
  proof -
    have "\<bar>e2\<bar> \<le> u * \<bar>t\<bar> + eta" using E[of t] by (simp add: e2_def b t_def)
    moreover have "u * \<bar>t\<bar> \<le> u * 1" using t01 u by (intro mult_left_mono) simp_all
    ultimately show ?thesis by linarith
  qed
  have M0: "0 < M" using M(1) by linarith
  have bM: "0 \<le> b * M" "b * M \<le> M"
    using b01 M0 mult_right_mono[of b 1 M] by simp_all
  have c01: "0 \<le> c" "c \<le> M"
    using rounding_mono[OF r bM(1)] rounding_mono[OF r bM(2)] by (simp_all add: c r0 M)
  define e3 where "e3 = c - b * M"
  have e3: "\<bar>e3\<bar> \<le> u * M + eta"
  proof -
    have "\<bar>e3\<bar> \<le> u * \<bar>b * M\<bar> + eta" using E[of "b * M"] by (simp add: e3_def c)
    moreover have "u * \<bar>b * M\<bar> \<le> u * M" using bM u by (intro mult_left_mono) simp_all
    ultimately show ?thesis by linarith
  qed
  have sc: "6 \<le> 6 + M - c" "6 + M - c \<le> 6 + M" using c01 by simp_all
  have y01: "6 \<le> y" "y \<le> 6 + M"
    using rounding_mono[OF r sc(1)] rounding_mono[OF r sc(2)] by (simp_all add: y r6 M)
  define e4 where "e4 = y - (6 + M - c)"
  have e4: "\<bar>e4\<bar> \<le> u * (6 + M) + eta"
  proof -
    have "\<bar>e4\<bar> \<le> u * \<bar>6 + M - c\<bar> + eta" using E[of "6 + M - c"] by (simp add: e4_def y)
    moreover have "u * \<bar>6 + M - c\<bar> \<le> u * (6 + M)" using sc u by (intro mult_left_mono) simp_all
    ultimately show ?thesis by linarith
  qed
  have y6: "0 \<le> y - 6" "y - 6 \<le> M" using y01 by simp_all
  have d01: "0 \<le> d" "d \<le> M"
    using rounding_mono[OF r y6(1)] rounding_mono[OF r y6(2)] by (simp_all add: d r0 M)
  define e5 where "e5 = d - (y - 6)"
  have e5: "\<bar>e5\<bar> \<le> u * M + eta"
  proof -
    have "\<bar>e5\<bar> \<le> u * \<bar>y - 6\<bar> + eta" using E[of "y - 6"] by (simp add: e5_def d)
    moreover have "u * \<bar>y - 6\<bar> \<le> u * M" using y6 u by (intro mult_left_mono) simp_all
    ultimately show ?thesis by linarith
  qed
  define q where "q = d / M"
  have q01: "0 \<le> q" "q \<le> 1" using d01 M0 by (simp_all add: q_def)
  have e01: "0 \<le> e" "e \<le> 1"
    using rounding_mono[OF r q01(1)] rounding_mono[OF r q01(2)] by (simp_all add: e q_def r0 r1)
  define e6 where "e6 = e - q"
  have e6: "\<bar>e6\<bar> \<le> u + eta"
  proof -
    have "\<bar>e6\<bar> \<le> u * \<bar>q\<bar> + eta" using E[of q] by (simp add: e6_def e q_def)
    moreover have "u * \<bar>q\<bar> \<le> u * 1" using q01 u by (intro mult_left_mono) simp_all
    ultimately show ?thesis by linarith
  qed
  have eR: "0 \<le> e * R" "e * R \<le> R"
    using e01 R(2) mult_right_mono[of e 1 R] by simp_all
  define e7 where "e7 = f - e * R"
  have e7: "\<bar>e7\<bar> \<le> u * R + eta"
  proof -
    have "\<bar>e7\<bar> \<le> u * \<bar>e * R\<bar> + eta" using E[of "e * R"] by (simp add: e7_def f)
    moreover have "u * \<bar>e * R\<bar> \<le> u * R" using eR u by (intro mult_left_mono) simp_all
    ultimately show ?thesis by linarith
  qed
  have f0: "0 \<le> f" using rounding_mono[OF r eR(1)] by (simp add: f r0)
  have uh1: "u * h \<le> h / 1000" using u h0 mult_right_mono[of u "1 / 1000" h] by simp
  have f3: "f \<le> 3 * h"
  proof -
    have "f \<le> e * R + u * R + eta" using e7 by (simp add: e7_def abs_le_iff)
    then show ?thesis using eR Rh uR uh1 eta h0 by linarith
  qed
  define e8 where "e8 = p' - (h - f)"
  have hf: "\<bar>h - f\<bar> \<le> 2 * h" using f0 f3 h0 by (simp add: abs_le_iff)
  have e8: "\<bar>e8\<bar> \<le> 2 * (u * h) + eta"
  proof -
    have "\<bar>e8\<bar> \<le> u * \<bar>h - f\<bar> + eta" using E[of "h - f"] by (simp add: e8_def p')
    moreover have "u * \<bar>h - f\<bar> \<le> u * (2 * h)" using hf u by (intro mult_left_mono) simp_all
    ultimately show ?thesis by linarith
  qed
  have p3: "\<bar>p'\<bar> \<le> 3 * h" using e8 hf uh1 eta h0 by (simp add: e8_def abs_le_iff)
  define X2 where "X2 = e2 * R"
  define X3 where "X3 = (e3 - e4 - e5) * R / M"
  define X6 where "X6 = e6 * R"
  have X2: "\<bar>X2\<bar> \<le> 4 * (u * h)"
  proof -
    have "\<bar>X2\<bar> = \<bar>e2\<bar> * R" using R(2) by (simp add: X2_def abs_mult)
    also have "\<dots> \<le> (u + eta) * R" using e2 R(2) by (intro mult_right_mono) simp_all
    also have "\<dots> = u * R + eta * R" by (simp add: algebra_simps)
    finally show ?thesis using uR by linarith
  qed
  have X6: "\<bar>X6\<bar> \<le> 4 * (u * h)"
  proof -
    have "\<bar>X6\<bar> = \<bar>e6\<bar> * R" using R(2) by (simp add: X6_def abs_mult)
    also have "\<dots> \<le> (u + eta) * R" using e6 R(2) by (intro mult_right_mono) simp_all
    also have "\<dots> = u * R + eta * R" by (simp add: algebra_simps)
    finally show ?thesis using uR by linarith
  qed
  have X3: "\<bar>X3\<bar> \<le> 24 * (u * h)"
  proof -
    have uM: "u * 1 \<le> u * M" "eta * 1 \<le> eta * M"
      using M(1) u eta by (intro mult_left_mono; simp)+
    have "\<bar>e3 - e4 - e5\<bar> \<le> 3 * (u * M) + 6 * u + 3 * eta"
      using e3 e4 e5 by (simp add: algebra_simps)
    also have "\<dots> \<le> (9 * u + 3 * eta) * M" using uM by (simp add: algebra_simps)
    also have "\<dots> \<le> (12 * u) * M" using eta M0 by (intro mult_right_mono) simp_all
    finally have "\<bar>e3 - e4 - e5\<bar> / M \<le> 12 * u" using M0 by (simp add: field_simps)
    then have "\<bar>e3 - e4 - e5\<bar> / M * R \<le> 12 * u * R" using R(2) by (intro mult_right_mono) simp_all
    moreover have "\<bar>X3\<bar> = \<bar>e3 - e4 - e5\<bar> / M * R"
      using R(2) M0 by (simp add: X3_def abs_mult)
    ultimately show ?thesis using uR by (simp add: algebra_simps)
  qed
  have ident: "p' - p = - e0 + e1 + X2 + X3 - X6 - e7 + e8"
    using R(2) M0
    by (simp add: e0_def e1_def e2_def e3_def e4_def e5_def e6_def e7_def e8_def X2_def X3_def
        X6_def t_def q_def D_def field_simps)
  show "0 \<le> a \<and> a \<le> R" "0 \<le> b \<and> b \<le> 1" "0 \<le> c \<and> c \<le> M" "6 \<le> y \<and> y \<le> 6 + M"
    "0 \<le> d \<and> d \<le> M" "0 \<le> e \<and> e \<le> 1" "R \<le> 2 * h" "0 \<le> f \<and> f \<le> 3 * h" "\<bar>p'\<bar> \<le> 3 * h"
    using a01 b01 c01 y01 d01 e01 Rh f0 f3 p3 by simp_all
  have "\<bar>p' - p\<bar> \<le> 39 * (u * h)"
    using e0 e1 X2 X3 X6 e7 e8 uR eta(3) unfolding ident by linarith
  then show "\<bar>p' - p\<bar> \<le> 64 * u * h" using uh by linarith
qed

subsection \<open>The price range\<close>

lemma normal_priceD:
  "normal_price q \<Longrightarrow> \<exists>x. q = Fin x \<and> 1 / 2 ^ 1000 \<le> x \<and> x \<le> 2 ^ 1000"
  by (cases q) simp_all

lemma foldl_jmax_bounds:
  "\<forall>q\<in>set ps. \<exists>x. q = Fin x \<and> L \<le> x \<and> x \<le> U \<Longrightarrow> L \<le> a \<Longrightarrow> a \<le> U \<Longrightarrow>
     \<exists>m. foldl jmax (Fin a) ps = Fin m \<and> a \<le> m \<and> m \<le> U"
proof (induction ps arbitrary: a)
  case Nil
  then show ?case by simp
next
  case (Cons q ps)
  obtain x where x: "q = Fin x" "L \<le> x" "x \<le> U" using Cons.prems(1) by auto
  have "\<exists>m. foldl jmax (Fin (max a x)) ps = Fin m \<and> max a x \<le> m \<and> m \<le> U"
    using Cons.prems x by (intro Cons.IH) auto
  moreover have "jmax (Fin a) q = Fin (max a x)" by (simp add: x max_def)
  ultimately show ?case by auto
qed

lemma foldl_jmin_bounds:
  "\<forall>q\<in>set ps. \<exists>x. q = Fin x \<and> L \<le> x \<and> x \<le> U \<Longrightarrow> L \<le> a \<Longrightarrow> a \<le> U \<Longrightarrow>
     \<exists>m. foldl jmin (Fin a) ps = Fin m \<and> L \<le> m \<and> m \<le> a"
proof (induction ps arbitrary: a)
  case Nil
  then show ?case by simp
next
  case (Cons q ps)
  obtain x where x: "q = Fin x" "L \<le> x" "x \<le> U" using Cons.prems(1) by auto
  have "\<exists>m. foldl jmin (Fin (min a x)) ps = Fin m \<and> L \<le> m \<and> m \<le> min a x"
    using Cons.prems x by (intro Cons.IH) auto
  moreover have "jmin (Fin a) q = Fin (min a x)" by (simp add: x min_def)
  ultimately show ?case by auto
qed

lemma Math_max_min_normal:
  assumes "prices \<noteq> []" "list_all normal_price prices"
  shows "\<exists>mn mx. Math_min prices = Fin mn \<and> Math_max prices = Fin mx \<and>
           1 / 2 ^ 1000 \<le> mn \<and> mn \<le> mx \<and> mx \<le> 2 ^ 1000"
proof -
  define L :: real where "L = 1 / 2 ^ 1000"
  define U :: real where "U = 2 ^ 1000"
  have all: "\<forall>q\<in>set prices. \<exists>x. q = Fin x \<and> L \<le> x \<and> x \<le> U"
    using assms(2) normal_priceD unfolding L_def U_def list_all_iff by blast
  obtain q qs where pr: "prices = q # qs" using assms(1) by (cases prices) auto
  obtain a where a: "q = Fin a" "L \<le> a" "a \<le> U" using all pr by auto
  have qs: "\<forall>q\<in>set qs. \<exists>x. q = Fin x \<and> L \<le> x \<and> x \<le> U" using all pr by simp
  obtain mx where mx: "foldl jmax (Fin a) qs = Fin mx" "a \<le> mx" "mx \<le> U"
    using foldl_jmax_bounds[OF qs a(2,3)] by blast
  obtain mn where mn: "foldl jmin (Fin a) qs = Fin mn" "L \<le> mn" "mn \<le> a"
    using foldl_jmin_bounds[OF qs a(2,3)] by blast
  have "Math_max prices = Fin mx" "Math_min prices = Fin mn"
    using mx(1) mn(1) by (simp_all add: Math_max_def Math_min_def pr a(1))
  then show ?thesis using mx mn unfolding L_def U_def by (intro exI[of _ mn] exI[of _ mx]) simp
qed

text \<open>
  On prices of the usual magnitude the range is finite and not degenerate: \<^verbatim>\<open>hi\<close> is at
  least \<open>1025/1024\<close> of the largest price and \<^verbatim>\<open>lo\<close> at most \<open>1023/1024\<close> of the smallest,
  up to one rounding each.
\<close>

lemma accurate_bound:
  assumes "accurate rnd"
  shows "\<bar>rnd x - x\<bar> \<le> (1 / 2 ^ 53) * \<bar>x\<bar> + 1 / 2 ^ 1075"
  using accurate_err[OF assms, of x] by simp

lemma priceScale_normal:
  assumes r: "rounding rnd" and acc: "accurate rnd"
    and ne: "prices \<noteq> []" and np: "list_all normal_price prices"
  shows "\<exists>l h. priceScale rnd prices = (Fin l, Fin h, Fin (rnd (h - l))) \<and>
           0 < l \<and> l < h \<and> 1 / 2 ^ 1000 \<le> h \<and> h \<le> 2 ^ 1001 \<and> 0 < rnd (h - l)"
proof -
  define L :: real where "L = 1 / 2 ^ 1000"
  define U :: real where "U = 2 ^ 1000"
  define u :: real where "u = 1 / 2 ^ 53"
  define eta :: real where "eta = 1 / 2 ^ 1075"
  have L0: "0 < L" by (simp add: L_def)
  have LU: "L \<le> U" by (simp add: L_def U_def)
  have u: "0 < u" "u \<le> 1 / 4096" by (simp_all add: u_def)
  have eta: "0 < eta" "eta \<le> L / 4096" by (simp_all add: eta_def L_def)
  have E: "\<bar>rnd x - x\<bar> \<le> u * \<bar>x\<bar> + eta" for x
    using accurate_bound[OF acc, of x] by (simp add: u_def eta_def)
  have rL: "rnd L = L" "rnd (L / 2) = L / 2" "rnd (L / 1024) = L / 1024"
    using rounding_pow2(1)[OF r, of "- 1000"] rounding_pow2(1)[OF r, of "- 1001"]
      rounding_pow2(1)[OF r, of "- 1010"]
    by (simp_all add: L_def power_int_minus field_simps)
  have rU: "rnd U = U" "rnd (2 * U) = 2 * U"
    using rounding_pow2(1)[OF r, of 1000] rounding_pow2(1)[OF r, of 1001]
    by (simp_all add: U_def)
  have U23: "2 * U \<le> 2 ^ 1023" by (simp add: U_def)
  obtain mn mx where m: "Math_min prices = Fin mn" "Math_max prices = Fin mx"
      "L \<le> mn" "mn \<le> mx" "mx \<le> U"
    using Math_max_min_normal[OF ne np] unfolding L_def U_def by blast
  define c1 where "c1 = rnd (1001 / 1000)"
  define c2 where "c2 = rnd (999 / 1000)"
  have c1: "1025 / 1024 \<le> c1" "c1 \<le> 2"
    using rounding_mono[OF r, of "1025 / 1024" "1001 / 1000"] rounding_mono[OF r, of "1001 / 1000" 2]
      rounding_grid[OF r, of 1025 "- 10"] rounding_int[OF r, of 2]
    by (simp_all add: c1_def power_int_minus)
  have c2: "1 / 2 \<le> c2" "c2 \<le> 1023 / 1024"
    using rounding_mono[OF r, of "1 / 2" "999 / 1000"] rounding_mono[OF r, of "999 / 1000" "1023 / 1024"]
      rounding_grid[OF r, of 1023 "- 10"] rounding_grid[OF r, of 1 "- 1"]
    by (simp_all add: c2_def power_int_minus)
  define x where "x = mx * c1"
  define z where "z = mn * c2"
  define h where "h = rnd x"
  define l where "l = rnd z"
  have mn0: "0 < mn" using m(3) L0 by linarith
  have mx0: "0 < mx" using m(4) mn0 by linarith
  have x: "mn * (1025 / 1024) \<le> x" "L \<le> x" "x \<le> 2 * U"
  proof -
    have "mn * (1025 / 1024) \<le> mx * c1"
      using m(4) c1(1) mn0 by (intro mult_mono) simp_all
    then show "mn * (1025 / 1024) \<le> x" by (simp add: x_def)
    then show "L \<le> x" using m(3) mn0 by linarith
    have "mx * c1 \<le> U * 2" using m(5) c1(2) mx0 c1(1) by (intro mult_mono) simp_all
    then show "x \<le> 2 * U" by (simp add: x_def)
  qed
  have z: "L / 2 \<le> z" "z \<le> mn * (1023 / 1024)" "z \<le> U"
  proof -
    have "L * (1 / 2) \<le> mn * c2" using m(3) c2(1) L0 by (intro mult_mono) simp_all
    then show "L / 2 \<le> z" by (simp add: z_def)
    have "mn * c2 \<le> mn * (1023 / 1024)" using c2(2) mn0 by (intro mult_left_mono) simp_all
    then show "z \<le> mn * (1023 / 1024)" by (simp add: z_def)
    then show "z \<le> U" using m(4,5) mn0 by linarith
  qed
  have h: "L \<le> h" "h \<le> 2 * U"
    using rounding_mono[OF r x(2)] rounding_mono[OF r x(3)] by (simp_all add: h_def rL rU)
  have l: "L / 2 \<le> l" "l \<le> U"
    using rounding_mono[OF r z(1)] rounding_mono[OF r z(3)] by (simp_all add: l_def rL rU)
  have hx: "x - x / 4096 - eta \<le> h"
  proof -
    have "x - (u * \<bar>x\<bar> + eta) \<le> h" using E[of x] by (simp add: h_def abs_le_iff)
    moreover have "u * \<bar>x\<bar> \<le> (1 / 4096) * \<bar>x\<bar>" using u by (intro mult_right_mono) simp_all
    moreover have "0 \<le> x" using x(2) L0 by linarith
    ultimately show ?thesis by simp
  qed
  have lz: "l \<le> z + z / 4096 + eta"
  proof -
    have "l \<le> z + (u * \<bar>z\<bar> + eta)" using E[of z] by (simp add: l_def abs_le_iff)
    moreover have "u * \<bar>z\<bar> \<le> (1 / 4096) * \<bar>z\<bar>" using u by (intro mult_right_mono) simp_all
    moreover have "0 \<le> z" using z(1) L0 by linarith
    ultimately show ?thesis by simp
  qed
  have D: "L / 1024 \<le> h - l"
  proof -
    have "mn / 1024 \<le> h - l" using hx lz x(1) z(2) eta m(3) by linarith
    then show ?thesis using m(3) by linarith
  qed
  have R: "L / 1024 \<le> rnd (h - l)" using rounding_mono[OF r D] by (simp add: rL)
  have Rpos: "0 < rnd (h - l)" using R L0 by linarith
  have Rle: "rnd (h - l) \<le> 2 * U"
  proof -
    have "h - l \<le> 2 * U" using h l L0 by linarith
    from rounding_mono[OF r this] show ?thesis by (simp add: rU)
  qed
  have hi: "jmul rnd (Math_max prices) (Fin (rnd (1001 / 1000))) = Fin h"
    using h L0 U23 by (simp add: m c1_def[symmetric] x_def[symmetric]) (intro fin_Fin; simp add: h_def)
  have lo: "jmul rnd (Math_min prices) (Fin (rnd (999 / 1000))) = Fin l"
    using l L0 U23 LU by (simp add: m c2_def[symmetric] z_def[symmetric]) (intro fin_Fin; simp add: l_def)
  have d: "jsub rnd (Fin h) (Fin l) = Fin (rnd (h - l))"
    using Rpos Rle U23 by (simp add: jsub_def) (intro fin_Fin; simp)
  have "priceScale rnd prices = (Fin l, Fin h, Fin (rnd (h - l)))"
    using Rpos by (simp add: priceScale_def hi lo d Let_def)
  moreover have "0 < l" "l < h" using l L0 D by linarith+
  moreover have "1 / 2 ^ 1000 \<le> h" "h \<le> 2 ^ 1001" using h by (simp_all add: L_def U_def)
  ultimately show ?thesis using Rpos by blast
qed

subsection \<open>The round trip of a price\<close>

text \<open>The degenerate range of a candle whose prices are all 0, under every rounding.\<close>

lemma price_axis_degenerate:
  "\<forall>rnd. rounding rnd \<longrightarrow>
     allPrices rnd [\<lparr>time = 0, open' = 0, high = 0, low = 0, close = 0\<rparr>] True (Fin 0) None False =
       [Fin 0, Fin 0, Fin 0] \<and>
     priceScale rnd [Fin 0, Fin 0, Fin 0] = (Fin 0, Fin 0, Fin 1) \<and>
     mainChartH 368 0 = 312 \<and>
     jle (Fin 0) (Fin 0) \<and>
     priceToY rnd 312 (Fin 0) (Fin 1) (Fin 0) = Fin 318 \<and>
     yToPrice rnd 312 (Fin 0) (Fin 1) (Fin 318) = Fin (- 1)"
proof (intro allI impI)
  fix rnd :: "real \<Rightarrow> real"
  assume r: "rounding rnd"
  have i: "rnd (real_of_int m) = real_of_int m" if "\<bar>m\<bar> \<le> 1000" for m
    using rounding_int[OF r, of m] that by simp
  have f: "fin rnd (real_of_int m) = Fin (real_of_int m)" if "\<bar>m\<bar> \<le> 1000" for m
  proof -
    have "\<bar>real_of_int m\<bar> \<le> 1000" using that by linarith
    then show ?thesis using i[OF that] MAX_VALUE_ge by (auto simp: fin_def Let_def)
  qed
  have f0: "fin rnd 0 = Fin 0" using f[of 0] by simp
  have f1: "fin rnd 1 = Fin 1" using f[of 1] by simp
  have f318: "fin rnd 318 = Fin 318" using f[of 318] by simp
  have f312: "fin rnd 312 = Fin 312" using f[of 312] by simp
  have fm1: "fin rnd (- 1) = Fin (- 1)" using f[of "- 1"] by simp
  have 1: "allPrices rnd [\<lparr>time = 0, open' = 0, high = 0, low = 0, close = 0\<rparr>] True (Fin 0) None False =
       [Fin 0, Fin 0, Fin 0]"
    by (simp add: allPrices_def)
  have 2: "priceScale rnd [Fin 0, Fin 0, Fin 0] = (Fin 0, Fin 0, Fin 1)"
    by (simp add: priceScale_def Math_max_def Math_min_def jsub_def f0 Let_def)
  have 3: "mainChartH 368 0 = 312" by (simp add: mainChartH_def topPad_def)
  have 4: "priceToY rnd 312 (Fin 0) (Fin 1) (Fin 0) = Fin 318"
    by (simp add: priceToY_def topPad_def jsub_def f0 f318)
  have 5: "yToPrice rnd 312 (Fin 0) (Fin 1) (Fin 318) = Fin (- 1)"
    by (simp add: yToPrice_def topPad_def jsub_def f312 f1 fm1)
  show "allPrices rnd [\<lparr>time = 0, open' = 0, high = 0, low = 0, close = 0\<rparr>] True (Fin 0) None False =
       [Fin 0, Fin 0, Fin 0] \<and>
     priceScale rnd [Fin 0, Fin 0, Fin 0] = (Fin 0, Fin 0, Fin 1) \<and>
     mainChartH 368 0 = 312 \<and>
     jle (Fin 0) (Fin 0) \<and>
     priceToY rnd 312 (Fin 0) (Fin 1) (Fin 0) = Fin 318 \<and>
     yToPrice rnd 312 (Fin 0) (Fin 1) (Fin 318) = Fin (- 1)"
    using 1 2 3 4 5 by (simp add: jle_def)
qed

text \<open>
  C9, as stated, fails in the degenerate case it includes. \<^verbatim>\<open>priceToY\<close> measures from
  \<^verbatim>\<open>lo\<close> and \<^verbatim>\<open>yToPrice\<close> from \<^verbatim>\<open>hi\<close>, so with \<open>hi = lo\<close> and the fallback range 1 the
  round trip lands one unit below the price. One visible candle whose prices are all 0,
  with the current price 0, gives \<open>lo = hi = 0\<close>; in the standard layout (container
  height 368, plot height 312) the price 0 maps to the pixel 318 and back to -1. All
  the values are small integers, so this is the result under every rounding; it is
  stated in exact arithmetic.
\<close>

theorem price_axis_counterexample:
  "allPrices id [\<lparr>time = 0, open' = 0, high = 0, low = 0, close = 0\<rparr>] True (Fin 0) None False =
     [Fin 0, Fin 0, Fin 0] \<and>
   priceScale id [Fin 0, Fin 0, Fin 0] = (Fin 0, Fin 0, Fin 1) \<and>
   mainChartH 368 0 = 312 \<and>
   jle (Fin 0) (Fin 0) \<and>
   priceToY id 312 (Fin 0) (Fin 1) (Fin 0) = Fin 318 \<and>
   yToPrice id 312 (Fin 0) (Fin 1) (Fin 318) = Fin (- 1)"
  using price_axis_degenerate rounding_id by blast

text \<open>
  C9, amended. In binary64 arithmetic (a monotone rounding that leaves the binary64
  values unchanged and is accurate to half a unit in the last place), for every
  non-empty list of plotted prices that are finite and between \<open>2^-1000\<close> and \<open>2^1000\<close>,
  every plot height from 1 to \<open>2^31\<close> pixels and every price \<open>p\<close> with \<open>lo \<le> p \<le> hi\<close>:
  \<^verbatim>\<open>lo\<close>, \<^verbatim>\<open>hi\<close> and \<^verbatim>\<open>range\<close> are finite with \<open>0 < lo < hi\<close>, the range is the rounded
  difference \<open>hi - lo\<close> and positive (not the fallback 1), \<^verbatim>\<open>priceToY(p)\<close> is a finite
  pixel between \<^verbatim>\<open>topPad\<close> and \<^verbatim>\<open>topPad + mainChartH\<close>, and \<^verbatim>\<open>yToPrice(priceToY(p))\<close> is
  finite and differs from \<open>p\<close> by at most \<open>hi / 2^47\<close>. The degenerate case, where the
  range falls back to 1, is excluded: there the two are not inverses, as on the candle
  above.
\<close>

theorem price_axis_round_trip:
  assumes "rounding rnd" "accurate rnd"
    and "prices \<noteq> []" "list_all normal_price prices"
    and "1 \<le> chartH" "chartH \<le> 2 ^ 31"
    and "priceScale rnd prices = (lo, hi, rng)"
    and "jle lo (Fin p)" "jle (Fin p) hi"
  shows "\<exists>l h r y q.
           lo = Fin l \<and> hi = Fin h \<and> rng = Fin r \<and> 0 < l \<and> l < h \<and> r = rnd (h - l) \<and> 0 < r \<and>
           priceToY rnd chartH lo rng (Fin p) = Fin y \<and>
           real_of_int topPad \<le> y \<and> y \<le> real_of_int (topPad + chartH) \<and>
           yToPrice rnd chartH hi rng (Fin y) = Fin q \<and>
           \<bar>q - p\<bar> \<le> h / 2 ^ 47"
proof -
  note r = assms(1)
  obtain l h where s: "priceScale rnd prices = (Fin l, Fin h, Fin (rnd (h - l)))"
    and l0: "0 < l" and lh: "l < h" and hL: "1 / 2 ^ 1000 \<le> h" and hU: "h \<le> 2 ^ 1001"
    and R0: "0 < rnd (h - l)"
    using priceScale_normal[OF assms(1-4)] by blast
  have lo: "lo = Fin l" and hi: "hi = Fin h" and rng: "rng = Fin (rnd (h - l))"
    using s assms(7) by simp_all
  have lp: "l \<le> p" "p \<le> h" using assms(8,9) by (auto simp: lo hi jle_def)
  define u :: real where "u = 1 / 2 ^ 53"
  define eta :: real where "eta = 1 / 2 ^ 1075"
  define B :: real where "B = 2 ^ 1023"
  have u: "0 < u" "u \<le> 1 / 1000" by (simp_all add: u_def)
  have eta: "0 < eta" "eta \<le> u" by (simp_all add: eta_def u_def)
  have eh: "4 * eta \<le> u * h"
  proof -
    have "4 * eta \<le> u * (1 / 2 ^ 1000)" by (simp add: eta_def u_def)
    also have "\<dots> \<le> u * h" using hL u by (intro mult_left_mono) simp_all
    finally show ?thesis .
  qed
  have E: "\<bar>rnd x - x\<bar> \<le> u * \<bar>x\<bar> + eta" for x
    using accurate_bound[OF assms(2), of x] by (simp add: u_def eta_def)
  define M where "M = real_of_int chartH"
  have M1: "1 \<le> M" using assms(5) by (simp add: M_def)
  have rM: "rnd M = M" "rnd (6 + M) = 6 + M"
    using rounding_int[OF r, of chartH] rounding_int[OF r, of "6 + chartH"] assms(5,6)
    by (simp_all add: M_def)
  have MB: "6 + M \<le> B" using assms(6) by (simp add: M_def B_def)
  have hB: "3 * h \<le> B" "0 < h" using hU l0 lh by (simp_all add: B_def)
  define R where "R = rnd (h - l)"
  define a where "a = rnd (p - l)"
  define b where "b = rnd (a / R)"
  define c where "c = rnd (b * M)"
  define y where "y = rnd (6 + M - c)"
  define d where "d = rnd (y - 6)"
  define e where "e = rnd (d / M)"
  define f where "f = rnd (e * R)"
  define q where "q = rnd (h - f)"
  have Rp: "0 < R" using R0 by (simp add: R_def)
  note rt = round_trip_real[OF r E u eta eh less_imp_le[OF l0] lp R_def Rp M1 rM
      a_def b_def c_def y_def d_def e_def f_def q_def]
  have FIN: "fin rnd x = Fin (rnd x)" if "\<bar>rnd x\<bar> \<le> B" for x
    using that by (intro fin_Fin) (simp_all add: B_def)
  have B1: "1 \<le> B" using MB M1 by linarith
  have "\<bar>a\<bar> \<le> B" using rt(1,7) hB by linarith
  then have fa: "fin rnd (p - l) = Fin a" using FIN[of "p - l"] by (simp add: a_def)
  have "\<bar>b\<bar> \<le> B" using rt(2) B1 by linarith
  then have fb: "fin rnd (a / R) = Fin b" using FIN[of "a / R"] by (simp add: b_def)
  have "\<bar>c\<bar> \<le> B" using rt(3) MB by linarith
  then have fc: "fin rnd (b * M) = Fin c" using FIN[of "b * M"] by (simp add: c_def)
  have "\<bar>6 + M\<bar> \<le> B" using MB M1 by linarith
  then have fs: "fin rnd (6 + M) = Fin (6 + M)" using FIN[of "6 + M"] rM by simp
  have "\<bar>y\<bar> \<le> B" using rt(4) MB by linarith
  then have fy: "fin rnd (6 + M - c) = Fin y" using FIN[of "6 + M - c"] by (simp add: y_def)
  have "\<bar>d\<bar> \<le> B" using rt(5) MB by linarith
  then have fd: "fin rnd (y - 6) = Fin d" using FIN[of "y - 6"] by (simp add: d_def)
  have "\<bar>e\<bar> \<le> B" using rt(6) B1 by linarith
  then have fe: "fin rnd (d / M) = Fin e" using FIN[of "d / M"] by (simp add: e_def)
  have "\<bar>f\<bar> \<le> B" using rt(8) hB by linarith
  then have ff: "fin rnd (e * R) = Fin f" using FIN[of "e * R"] by (simp add: f_def)
  have "\<bar>q\<bar> \<le> B" using rt(9) hB by linarith
  then have fq: "fin rnd (h - f) = Fin q" using FIN[of "h - f"] by (simp add: q_def)
  have Y: "priceToY rnd chartH lo rng (Fin p) = Fin y"
    using Rp by (simp add: priceToY_def lo rng topPad_def jsub_def R_def[symmetric] M_def[symmetric]
        fa fb fc fs fy)
  have M0: "M \<noteq> 0" using M1 by simp
  have Q: "yToPrice rnd chartH hi rng (Fin y) = Fin q"
    using M0 by (simp add: yToPrice_def hi rng topPad_def jsub_def R_def[symmetric] M_def[symmetric]
        fd fe ff fq)
  have bound: "\<bar>q - p\<bar> \<le> h / 2 ^ 47"
  proof -
    have "64 * u = 1 / 2 ^ 47" by (simp add: u_def)
    then have "64 * u * h = h / 2 ^ 47" by (simp only: times_divide_eq_left mult_1)
    then show ?thesis using rt(10) by (simp only:)
  qed
  have yr: "real_of_int topPad \<le> y" "y \<le> real_of_int (topPad + chartH)"
    using rt(4) by (simp_all add: topPad_def M_def)
  show ?thesis
    using lo hi rng l0 lh Rp Y Q bound yr unfolding R_def by blast
qed

text \<open>
  One candle with high 110 and low 90, the current price 105, the standard layout and
  the price 100, in exact arithmetic.
\<close>

theorem price_axis_round_trip_witness:
  "rounding id \<and> accurate id \<and>
   allPrices id [\<lparr>time = 0, open' = 100, high = 110, low = 90, close = 105\<rparr>] True (Fin 105) None
     False = [Fin 110, Fin 90, Fin 105] \<and>
   [Fin 110, Fin 90, Fin 105] \<noteq> [] \<and> list_all normal_price [Fin 110, Fin 90, Fin 105] \<and>
   1 \<le> mainChartH 368 0 \<and> mainChartH 368 0 \<le> 2 ^ 31 \<and>
   priceScale id [Fin 110, Fin 90, Fin 105] =
     (Fin (8991 / 100), Fin (11011 / 100), Fin (101 / 5)) \<and>
   jle (Fin (8991 / 100)) (Fin 100) \<and> jle (Fin 100) (Fin (11011 / 100)) \<and>
   priceToY id (mainChartH 368 0) (Fin (8991 / 100)) (Fin (101 / 5)) (Fin 100) =
     Fin (81888 / 505) \<and>
   yToPrice id (mainChartH 368 0) (Fin (11011 / 100)) (Fin (101 / 5)) (Fin (81888 / 505)) =
     Fin 100"
proof -
  have a: "allPrices id [\<lparr>time = 0, open' = 100, high = 110, low = 90, close = 105\<rparr>] True
      (Fin 105) None False = [Fin 110, Fin 90, Fin 105]"
    by (simp add: allPrices_def)
  have ne: "[Fin 110, Fin 90, Fin 105] \<noteq> []" by simp
  have np: "list_all normal_price [Fin 110, Fin 90, Fin 105]" by simp
  have m: "mainChartH 368 0 = 312" by (simp add: mainChartH_def topPad_def)
  have c: "1 \<le> mainChartH 368 0" "mainChartH 368 0 \<le> 2 ^ 31" by (simp_all add: m)
  have s: "priceScale id [Fin 110, Fin 90, Fin 105] =
      (Fin (8991 / 100), Fin (11011 / 100), Fin (101 / 5))"
    by (simp add: priceScale_def Math_max_def Math_min_def jsub_def fin_id_small Let_def)
  have j: "jle (Fin (8991 / 100)) (Fin 100)" "jle (Fin 100) (Fin (11011 / 100))"
    by (simp_all add: jle_def)
  have y: "priceToY id (mainChartH 368 0) (Fin (8991 / 100)) (Fin (101 / 5)) (Fin 100) =
      Fin (81888 / 505)"
    by (simp add: m priceToY_def topPad_def jsub_def fin_id_small)
  have q: "yToPrice id (mainChartH 368 0) (Fin (11011 / 100)) (Fin (101 / 5)) (Fin (81888 / 505)) =
      Fin 100"
    by (simp add: m yToPrice_def topPad_def jsub_def fin_id_small)
  from price_axis_round_trip[OF rounding_id accurate_id ne np c s j]
  show ?thesis using rounding_id accurate_id a ne np c s j y q by simp
qed

section \<open>Further properties\<close>

subsection \<open>Candles\<close>

text \<open>
  The part of the candle invariant that the aggregator keeps: if every candle of the
  starting series has \<open>low \<le> close \<le> high\<close> (as in the empty series), so has every
  candle of the series after any sequence of ticks.
\<close>

theorem close_stays_in_range:
  assumes "list_all close_in_range cs"
  shows "list_all close_in_range (run_ticks cs p ticks)"
  by (rule run_ticks_close_in_range[OF assms])

text \<open>Three ticks into the empty one-minute series.\<close>

theorem close_stays_in_range_witness:
  "list_all close_in_range [] \<and>
   run_ticks [] 60 [(100, 0), (105, 60000), (90, 61000)] =
     [\<lparr>time = 0, open' = 100, high = 100, low = 100, close = 100\<rparr>,
      \<lparr>time = 60000, open' = 100, high = 105, low = 90, close = 90\<rparr>] \<and>
   list_all close_in_range (run_ticks [] 60 [(100, 0), (105, 60000), (90, 61000)])"
  using close_stays_in_range[of "[]" 60 "[(100, 0), (105, 60000), (90, 61000)]"]
  by (simp add: tickCandles_def tick_update_def trim500_def bucket_of_def)

text \<open>
  The seeded series. Its times are \<open>count\<close> strictly increasing multiples of the period,
  exactly one period apart, and the last of them is one period before the bucket of the
  seeding time: the seeding leaves that bucket without a candle, for the first tick to
  open.
\<close>

lemma seed_time_eq:
  assumes "0 < p"
  shows "((now - int i * (p * 1000)) div (p * 1000)) * (p * 1000) =
           bucket_of p now - int i * (p * 1000)"
proof -
  define m where "m = p * 1000"
  have m: "m \<noteq> 0" using assms by (simp add: m_def)
  have "(now - int i * m) div m = now div m - int i"
    using div_mult_self1[OF m, of now "- int i"] by simp
  then have "((now - int i * m) div m) * m = (now div m) * m - int i * m"
    by (simp add: left_diff_distrib)
  then show ?thesis by (simp add: bucket_of_def Let_def m_def)
qed

lemma seed_times_map:
  assumes "0 < p"
  shows "seed_times p now n = map (\<lambda>i. bucket_of p now - int i * (p * 1000)) (rev [1..<Suc n])"
  using seed_time_eq[OF assms] by (simp add: seed_times_def Let_def)

lemma seed_times_Suc:
  assumes "0 < p"
  shows "seed_times p now (Suc n) =
           (bucket_of p now - int (Suc n) * (p * 1000)) # seed_times p now n"
  by (simp add: seed_times_map[OF assms])

text \<open>
  For every period \<open>T > 0\<close>, seeding time and count, the seeded times are \<open>count\<close> many,
  strictly increasing, multiples of \<open>T * 1000\<close>, exactly one period apart, all before the
  bucket of the seeding time, and the last one is that bucket less one period.
\<close>

theorem seeded_times:
  assumes "0 < periodSec"
  shows "length (seed_times periodSec now count) = count \<and>
         sorted_wrt (<) (seed_times periodSec now count) \<and>
         aligned (periodSec * 1000) (seed_times periodSec now count) \<and>
         gapless (periodSec * 1000) (seed_times periodSec now count) \<and>
         list_all (\<lambda>t. t < bucket_of periodSec now) (seed_times periodSec now count) \<and>
         (0 < count \<longrightarrow>
            last (seed_times periodSec now count) = bucket_of periodSec now - periodSec * 1000)"
proof -
  let ?m = "periodSec * 1000"
  let ?B = "bucket_of periodSec now"
  have m: "0 < ?m" using assms by simp
  have hd: "n \<noteq> 0 \<Longrightarrow> hd (seed_times periodSec now n) = ?B - int n * ?m" for n
    by (cases n) (simp_all add: seed_times_Suc[OF assms])
  have all: "\<forall>t\<in>set (seed_times periodSec now n). ?B - int n * ?m \<le> t \<and> t < ?B" for n
    using m by (auto simp: seed_times_map[OF assms] mult_le_cancel_right)
  have 1: "length (seed_times periodSec now count) = count" by (simp add: seed_times_def Let_def)
  have 2: "sorted_wrt (<) (seed_times periodSec now n)" for n
  proof (induction n)
    case 0
    then show ?case by (simp add: seed_times_def)
  next
    case (Suc n)
    have "?B - int (Suc n) * ?m < t" if "t \<in> set (seed_times periodSec now n)" for t
      using all[of n] that m by (auto simp: algebra_simps)
    then show ?case using Suc by (simp add: seed_times_Suc[OF assms])
  qed
  have 3: "aligned ?m (seed_times periodSec now count)"
    by (simp add: aligned_def list_all_iff seed_times_def Let_def)
  have 4: "gapless ?m (seed_times periodSec now n)" for n
  proof (induction n)
    case 0
    then show ?case by (simp add: seed_times_def)
  next
    case (Suc n)
    show ?case
    proof (cases n)
      case 0
      then show ?thesis by (simp add: seed_times_def Let_def)
    next
      case (Suc k)
      then obtain t ts where ts: "seed_times periodSec now n = t # ts"
        by (simp add: seed_times_Suc[OF assms])
      have "t = ?B - int n * ?m" using hd[of n] Suc ts by simp
      then show ?thesis using \<open>gapless ?m (seed_times periodSec now n)\<close>
        by (simp add: seed_times_Suc[OF assms, of now n] ts algebra_simps)
    qed
  qed
  have 5: "list_all (\<lambda>t. t < ?B) (seed_times periodSec now count)"
    using all[of count] by (simp add: list_all_iff)
  have 6: "last (seed_times periodSec now count) = ?B - ?m" if "0 < count"
    using that by (simp add: seed_times_map[OF assms] last_map last_rev)
  show ?thesis using 1 2 3 4 5 6 by blast
qed

text \<open>Three one-minute candles seeded at the time 200000.\<close>

theorem seeded_times_witness:
  "(0::int) < 60 \<and> seed_times 60 200000 3 = [0, 60000, 120000] \<and>
   bucket_of 60 200000 = 180000 \<and>
   sorted_wrt (<) (seed_times 60 200000 3) \<and> gapless (60 * 1000) (seed_times 60 200000 3) \<and>
   last (seed_times 60 200000 3) = bucket_of 60 200000 - 60 * 1000"
  using seeded_times[of 60 200000 3]
  by (simp add: seed_times_def bucket_of_def upt_rec)

subsection \<open>Indicators\<close>

text \<open>
  Every indicator function returns a series of the length of its input, for every
  period and under every rounding.
\<close>

theorem indicator_lengths:
  "length (calcSMA rnd data period) = length data \<and>
   length (calcEMA rnd data period) = length data \<and>
   length (mid (calcBollinger rnd data period mult)) = length data \<and>
   length (upper (calcBollinger rnd data period mult)) = length data \<and>
   length (lower (calcBollinger rnd data period mult)) = length data \<and>
   length (calcRSI rnd data period) = length data"
  using length_calcBollinger[of rnd data period mult]
  by (simp add: length_calcSMA length_calcEMA length_calcRSI)

lemma ema_loop_short:
  "\<forall>i\<in>set js. i < period - 1 \<Longrightarrow>
     ema_loop rnd data period k ema js = replicate (length js) None"
  by (induction js) simp_all

lemma short_series:
  assumes "int (length data) < period"
  shows "calcSMA rnd data period = replicate (length data) None"
    and "calcEMA rnd data period = replicate (length data) None"
    and "calcRSI rnd data period = replicate (length data) None"
    and "mid (calcBollinger rnd data period mult) = replicate (length data) None"
    and "upper (calcBollinger rnd data period mult) = replicate (length data) None"
    and "lower (calcBollinger rnd data period mult) = replicate (length data) None"
proof -
  have r: "map f [0..int (length data) - 1] = replicate (length data) None"
    if "\<And>i. 0 \<le> i \<Longrightarrow> i < int (length data) \<Longrightarrow> f i = None"
    for f :: "int \<Rightarrow> jsnum option"
  proof -
    have "map f [0..int (length data) - 1] = map (\<lambda>_. None) [0..int (length data) - 1]"
      using that by (intro map_cong) auto
    then show ?thesis by (simp add: map_replicate_const)
  qed
  show sma: "calcSMA rnd data period = replicate (length data) None"
    unfolding calcSMA_def using assms by (intro r) auto
  show "calcEMA rnd data period = replicate (length data) None"
    unfolding calcEMA_def
    using assms ema_loop_short[of "[0..int (length data) - 1]" period] by auto
  show "calcRSI rnd data period = replicate (length data) None"
    using assms by (simp add: calcRSI_def map_replicate_const)
  show "mid (calcBollinger rnd data period mult) = replicate (length data) None"
    by (simp add: calcBollinger_def Let_def sma)
  show "upper (calcBollinger rnd data period mult) = replicate (length data) None"
    unfolding calcBollinger_def Let_def sma by (simp, intro r) auto
  show "lower (calcBollinger rnd data period mult) = replicate (length data) None"
    unfolding calcBollinger_def Let_def sma by (simp, intro r) auto
qed

text \<open>
  A series shorter than the period gives the sentinel at every index, in all four
  functions.
\<close>

theorem short_series_all_sentinel:
  assumes "int (length data) < period"
  shows "calcSMA rnd data period = replicate (length data) None \<and>
         calcEMA rnd data period = replicate (length data) None \<and>
         calcRSI rnd data period = replicate (length data) None \<and>
         mid (calcBollinger rnd data period mult) = replicate (length data) None \<and>
         upper (calcBollinger rnd data period mult) = replicate (length data) None \<and>
         lower (calcBollinger rnd data period mult) = replicate (length data) None"
  using short_series[OF assms] by simp

text \<open>Two closes and the period 3.\<close>

theorem short_series_all_sentinel_witness:
  "int (length [Fin 1, Fin 2]) < 3 \<and>
   calcSMA id [Fin 1, Fin 2] 3 = [None, None] \<and> calcEMA id [Fin 1, Fin 2] 3 = [None, None] \<and>
   calcRSI id [Fin 1, Fin 2] 3 = [None, None] \<and>
   upper (calcBollinger id [Fin 1, Fin 2] 3 (Fin 2)) = [None, None]"
  using short_series_all_sentinel[of "[Fin 1, Fin 2]" 3 id "Fin 2"]
  by (simp add: numeral_2_eq_2)

text \<open>
  Under every rounding the RSI of the finite closes \<open>2^-999\<close>, \<open>2^-1000\<close>, \<open>2^1000\<close>
  with period 2 is exactly 100 at its defined index.
\<close>

theorem calcRSI_100_under_every_rounding:
  assumes "rounding rnd"
  shows "calcRSI rnd [Fin (2 powi (- 999)), Fin (2 powi (- 1000)), Fin (2 ^ 1000)] 2 =
     [None, None, Some (Fin 100)]"
  by (rule calcRSI_reaches_100_rounding[OF assms])

text \<open>The same closes in exact arithmetic.\<close>

theorem calcRSI_100_under_every_rounding_witness:
  "rounding id \<and>
   calcRSI id [Fin (2 powi (- 999)), Fin (2 powi (- 1000)), Fin (2 ^ 1000)] 2 ! 2 =
     Some (Fin 100)"
  using calcRSI_100_under_every_rounding[OF rounding_id] rounding_id by simp

text \<open>
  Under every rounding the RSI of the finite closes \<open>-2^1023\<close>, \<open>2^1023\<close>,
  \<open>-2^1023\<close> with period 2 is \<^verbatim>\<open>NaN\<close> at its defined index.
\<close>

theorem calcRSI_NaN_under_every_rounding:
  assumes "rounding rnd"
  shows "calcRSI rnd [Fin (- (2 ^ 1023)), Fin (2 ^ 1023), Fin (- (2 ^ 1023))] 2 =
     [None, None, Some NaN]"
  by (rule calcRSI_NaN_rounding[OF assms])

text \<open>The same closes in exact arithmetic.\<close>

theorem calcRSI_NaN_under_every_rounding_witness:
  "rounding id \<and>
   calcRSI id [Fin (- (2 ^ 1023)), Fin (2 ^ 1023), Fin (- (2 ^ 1023))] 2 ! 2 = Some NaN"
  using calcRSI_NaN_under_every_rounding[OF rounding_id] rounding_id by simp

subsection \<open>Price axis\<close>

text \<open>
  The other round trip, from a pixel to its price and back. On prices of the usual
  magnitude the width of the range is at least \<open>1/1024\<close> of \<^verbatim>\<open>hi\<close>, so an error of the
  price is magnified by at most \<open>1024\<close> plot heights when it is mapped back.
\<close>

lemma priceScale_wide:
  assumes r: "rounding rnd" and acc: "accurate rnd"
    and ne: "prices \<noteq> []" and np: "list_all normal_price prices"
    and s: "priceScale rnd prices = (Fin l, Fin h, Fin R)"
  shows "h \<le> 1024 * R" "1 / 2 ^ 1075 \<le> (1 / 2 ^ 53) * R"
proof -
  define L :: real where "L = 1 / 2 ^ 1000"
  define U :: real where "U = 2 ^ 1000"
  define u :: real where "u = 1 / 2 ^ 53"
  define eta :: real where "eta = 1 / 2 ^ 1075"
  have L0: "0 < L" by (simp add: L_def)
  have u: "0 < u" "u \<le> 1 / 4096" by (simp_all add: u_def)
  have eta: "0 < eta" "eta \<le> L / 2 ^ 20" "eta \<le> u * (L / 2048)"
    by (simp_all add: eta_def L_def u_def)
  have E: "\<bar>rnd x - x\<bar> \<le> u * \<bar>x\<bar> + eta" for x
    using accurate_bound[OF acc, of x] by (simp add: u_def eta_def)
  obtain mn mx where m: "Math_min prices = Fin mn" "Math_max prices = Fin mx"
      "L \<le> mn" "mn \<le> mx" "mx \<le> U"
    using Math_max_min_normal[OF ne np] unfolding L_def U_def by blast
  obtain l' h' where s': "priceScale rnd prices = (Fin l', Fin h', Fin (rnd (h' - l')))"
    using priceScale_normal[OF r acc ne np] by blast
  have R: "R = rnd (h - l)" using s s' by auto
  define c1 where "c1 = rnd (1001 / 1000)"
  define c2 where "c2 = rnd (999 / 1000)"
  have c1: "1025 / 1024 \<le> c1" "c1 \<le> 2"
    using rounding_mono[OF r, of "1025 / 1024" "1001 / 1000"] rounding_mono[OF r, of "1001 / 1000" 2]
      rounding_grid[OF r, of 1025 "- 10"] rounding_int[OF r, of 2]
    by (simp_all add: c1_def power_int_minus)
  have c2: "1 / 2 \<le> c2" "c2 \<le> 1023 / 1024"
    using rounding_mono[OF r, of "1 / 2" "999 / 1000"] rounding_mono[OF r, of "999 / 1000" "1023 / 1024"]
      rounding_grid[OF r, of 1023 "- 10"] rounding_grid[OF r, of 1 "- 1"]
    by (simp_all add: c2_def power_int_minus)
  define x where "x = mx * c1"
  define z where "z = mn * c2"
  have mn0: "0 < mn" using m(3) L0 by linarith
  have mx0: "0 < mx" using m(4) mn0 by linarith
  have hl: "Fin h = fin rnd x" "Fin l = fin rnd z"
    using s by (simp_all add: priceScale_def Let_def m c1_def x_def c2_def z_def)
  have fin_eq: "Fin v = fin rnd w \<Longrightarrow> v = rnd w" for v w
    by (auto simp: fin_def Let_def split: if_splits)
  have h: "h = rnd x" and l: "l = rnd z" using hl fin_eq by simp_all
  have x1: "mx * (1025 / 1024) \<le> x" "L \<le> x"
  proof -
    have "mx * (1025 / 1024) \<le> mx * c1" using c1(1) mx0 by (intro mult_left_mono) simp_all
    then show "mx * (1025 / 1024) \<le> x" by (simp add: x_def)
    then show "L \<le> x" using m(3,4) mn0 by linarith
  qed
  have z1: "z \<le> mx * (1023 / 1024)" "0 \<le> z"
  proof -
    have "mn * c2 \<le> mx * (1023 / 1024)" using c2 m(4) mn0 by (intro mult_mono) simp_all
    then show "z \<le> mx * (1023 / 1024)" by (simp add: z_def)
    show "0 \<le> z" using mn0 c2(1) by (simp add: z_def)
  qed
  have x0: "0 \<le> x" using x1(2) L0 by linarith
  have hx: "x - x / 4096 - eta \<le> h" "h \<le> x + x / 4096 + eta"
  proof -
    have "\<bar>h - x\<bar> \<le> u * \<bar>x\<bar> + eta" using E[of x] by (simp add: h)
    moreover have "u * \<bar>x\<bar> \<le> (1 / 4096) * \<bar>x\<bar>" using u by (intro mult_right_mono) simp_all
    ultimately show "x - x / 4096 - eta \<le> h" "h \<le> x + x / 4096 + eta" using x0 by simp_all
  qed
  have lz: "l \<le> z + z / 4096 + eta"
  proof -
    have "l \<le> z + (u * \<bar>z\<bar> + eta)" using E[of z] by (simp add: l abs_le_iff)
    moreover have "u * \<bar>z\<bar> \<le> (1 / 4096) * \<bar>z\<bar>" using u by (intro mult_right_mono) simp_all
    ultimately show ?thesis using z1(2) by simp
  qed
  have etax: "eta \<le> x / 2 ^ 20" using eta(2) x1(2) by simp
  define D where "D = h - l"
  have D: "x / 700 \<le> D" using hx(1) lz x1(1) z1(1) etax mx0 by (simp add: D_def)
  have hD: "h \<le> 701 * D" using D hx(2) etax x0 by simp
  have D0: "0 \<le> D" using D x0 by linarith
  have RD: "D - D / 4096 - eta \<le> R"
  proof -
    have "\<bar>R - D\<bar> \<le> u * \<bar>D\<bar> + eta" using E[of D] by (simp add: R D_def)
    moreover have "u * \<bar>D\<bar> \<le> (1 / 4096) * \<bar>D\<bar>" using u by (intro mult_right_mono) simp_all
    ultimately show ?thesis using D0 by simp
  qed
  have etaD: "eta \<le> D / 1024" using etax D x0 by simp
  show "h \<le> 1024 * R" using hD RD etaD D0 by simp
  have "L / 2048 \<le> R" using RD etaD D x1(2) L0 by simp
  then have "u * (L / 2048) \<le> u * R" using u by (intro mult_left_mono) simp_all
  then have "eta \<le> u * R" using eta(3) by linarith
  then show "1 / 2 ^ 1075 \<le> (1 / 2 ^ 53) * R" by (simp add: eta_def u_def)
qed

lemma pixel_trip_real:
  fixes l h y M u eta :: real
  assumes r: "rounding rnd"
    and E: "\<And>x. \<bar>rnd x - x\<bar> \<le> u * \<bar>x\<bar> + eta"
    and u: "0 < u" "u \<le> 1 / 2 ^ 20" and eta: "0 < eta" "eta \<le> u" "4 * eta \<le> u * h"
    and l: "0 \<le> l" "l \<le> h"
    and R: "R = rnd (h - l)" "0 < R" "h \<le> 1024 * R" "eta \<le> u * R"
    and M: "1 \<le> M" "rnd M = M"
    and y: "6 \<le> y" "y \<le> 6 + M"
    and d: "d = rnd (y - 6)" and e: "e = rnd (d / M)" and f: "f = rnd (e * R)"
    and p: "p = rnd (h - f)" and a: "a = rnd (p - l)" and b: "b = rnd (a / R)"
    and c: "c = rnd (b * M)" and y': "y' = rnd (6 + M - c)"
  shows "0 \<le> d \<and> d \<le> M" "0 \<le> e \<and> e \<le> 1" "0 \<le> f \<and> f \<le> 3 * h" "\<bar>p\<bar> \<le> 3 * h"
    "\<bar>a\<bar> \<le> 3 * R" "\<bar>b\<bar> \<le> 3" "\<bar>c\<bar> \<le> 4 * M" "\<bar>y'\<bar> \<le> 12 * M" "R \<le> 2 * h"
    "\<bar>y' - y\<bar> \<le> 4096 * u * M"
proof -
  have r0: "rnd 0 = 0" and r1: "rnd 1 = 1" using rounding_0[OF r] rounding_1[OF r] by simp_all
  have r3: "rnd 3 = 3" "rnd (- 3) = - 3"
    using rounding_int[OF r, of 3] rounding_int[OF r, of "- 3"] by simp_all
  have h0: "0 \<le> h" using l by linarith
  have M0: "0 < M" using M(1) by linarith
  have u1: "u \<le> 1 / 1000"
  proof -
    have "(1::real) / 2 ^ 20 \<le> 1 / 1000" by simp
    then show ?thesis using u(2) by linarith
  qed
  define D where "D = h - l"
  have D: "0 \<le> D" "D \<le> h" using l by (simp_all add: D_def)
  define e0 where "e0 = R - D"
  have uh: "0 \<le> u * h" using u h0 by simp
  have uh1: "u * h \<le> h / 1000" using u1 h0 mult_right_mono[of u "1 / 1000" h] by simp
  have e0: "\<bar>e0\<bar> \<le> u * h + eta"
  proof -
    have "\<bar>e0\<bar> \<le> u * \<bar>D\<bar> + eta" using E[of "h - l"] by (simp add: e0_def R D_def)
    moreover have "u * \<bar>D\<bar> \<le> u * h" using D u by (simp add: mult_left_mono)
    ultimately show ?thesis by linarith
  qed
  have Rh: "R \<le> 2 * h"
  proof -
    have "R \<le> D + u * h + eta" using e0 by (simp add: e0_def abs_le_iff)
    then show ?thesis using D h0 uh1 eta(3) eta(1) by linarith
  qed
  have uR: "0 \<le> u * R" "u * R \<le> R / 1000"
    using u u1 R(2) mult_right_mono[of u "1 / 1000" R] by simp_all
  have uhR: "u * h \<le> 1024 * (u * R)"
    using R(3) u mult_left_mono[of h "1024 * R" u] by simp
  have uhR1: "u * h \<le> R / 1000"
  proof -
    have "u * R \<le> (1 / 2 ^ 20) * R"
      using u(2) R(2) by (intro mult_right_mono) simp_all
    then have "1024 * (u * R) \<le> R / 1000" using R(2) by simp
    then show ?thesis using uhR by linarith
  qed
  \<comment> \<open>the pixel as a fraction of the plot height\<close>
  have y6: "0 \<le> y - 6" "y - 6 \<le> M" using y by simp_all
  have d01: "0 \<le> d" "d \<le> M"
    using rounding_mono[OF r y6(1)] rounding_mono[OF r y6(2)] by (simp_all add: d r0 M)
  define e1 where "e1 = d - (y - 6)"
  have e1: "\<bar>e1\<bar> \<le> u * M + eta"
  proof -
    have "\<bar>e1\<bar> \<le> u * \<bar>y - 6\<bar> + eta" using E[of "y - 6"] by (simp add: e1_def d)
    moreover have "u * \<bar>y - 6\<bar> \<le> u * M" using y6 u by (intro mult_left_mono) simp_all
    ultimately show ?thesis by linarith
  qed
  define q where "q = d / M"
  have q01: "0 \<le> q" "q \<le> 1" using d01 M0 by (simp_all add: q_def)
  have e01: "0 \<le> e" "e \<le> 1"
    using rounding_mono[OF r q01(1)] rounding_mono[OF r q01(2)] by (simp_all add: e q_def r0 r1)
  define e2 where "e2 = e - q"
  have e2: "\<bar>e2\<bar> \<le> u + eta"
  proof -
    have "\<bar>e2\<bar> \<le> u * \<bar>q\<bar> + eta" using E[of q] by (simp add: e2_def e q_def)
    moreover have "u * \<bar>q\<bar> \<le> u * 1" using q01 u by (intro mult_left_mono) simp_all
    ultimately show ?thesis by linarith
  qed
  have eR: "0 \<le> e * R" "e * R \<le> R"
    using e01 R(2) mult_right_mono[of e 1 R] by simp_all
  define e3 where "e3 = f - e * R"
  have e3: "\<bar>e3\<bar> \<le> u * R + eta"
  proof -
    have "\<bar>e3\<bar> \<le> u * \<bar>e * R\<bar> + eta" using E[of "e * R"] by (simp add: e3_def f)
    moreover have "u * \<bar>e * R\<bar> \<le> u * R" using eR u by (intro mult_left_mono) simp_all
    ultimately show ?thesis by linarith
  qed
  have f0: "0 \<le> f" using rounding_mono[OF r eR(1)] by (simp add: f r0)
  have f3: "f \<le> 3 * h"
  proof -
    have "f \<le> e * R + u * R + eta" using e3 by (simp add: e3_def abs_le_iff)
    then show ?thesis using eR Rh uR uh1 eta h0 by linarith
  qed
  define e4 where "e4 = p - (h - f)"
  have hf: "\<bar>h - f\<bar> \<le> 2 * h" using f0 f3 h0 by (simp add: abs_le_iff)
  have e4: "\<bar>e4\<bar> \<le> 2 * (u * h) + eta"
  proof -
    have "\<bar>e4\<bar> \<le> u * \<bar>h - f\<bar> + eta" using E[of "h - f"] by (simp add: e4_def p)
    moreover have "u * \<bar>h - f\<bar> \<le> u * (2 * h)" using hf u by (intro mult_left_mono) simp_all
    ultimately show ?thesis by linarith
  qed
  have p3: "\<bar>p\<bar> \<le> 3 * h" using e4 hf uh1 eta h0 by (simp add: e4_def abs_le_iff)
  \<comment> \<open>the price above the low end of the range\<close>
  have pl: "p - l = R - e * R - e0 - e3 + e4"
    by (simp add: e0_def e3_def e4_def D_def)
  have pl2: "\<bar>p - l\<bar> \<le> 2 * R"
    using e0 e3 e4 eR uR uhR1 R(4) unfolding pl by (simp add: abs_le_iff)
  define e5 where "e5 = a - (p - l)"
  have e5: "\<bar>e5\<bar> \<le> 3 * (u * R)"
  proof -
    have "\<bar>e5\<bar> \<le> u * \<bar>p - l\<bar> + eta" using E[of "p - l"] by (simp add: e5_def a)
    moreover have "u * \<bar>p - l\<bar> \<le> u * (2 * R)" using pl2 u by (intro mult_left_mono) simp_all
    ultimately show ?thesis using R(4) by linarith
  qed
  have a3: "\<bar>a\<bar> \<le> 3 * R" using e5 pl2 uR by (simp add: e5_def abs_le_iff)
  define t where "t = a / R"
  have t3: "- 3 \<le> t" "t \<le> 3" using a3 R(2) by (simp_all add: t_def abs_le_iff field_simps)
  have b3: "- 3 \<le> b" "b \<le> 3"
    using rounding_mono[OF r t3(1)] rounding_mono[OF r t3(2)] by (simp_all add: b t_def r3)
  define e6 where "e6 = b - t"
  have e6: "\<bar>e6\<bar> \<le> 3 * u + eta"
  proof -
    have "\<bar>e6\<bar> \<le> u * \<bar>t\<bar> + eta" using E[of t] by (simp add: e6_def b t_def)
    moreover have "u * \<bar>t\<bar> \<le> u * 3" using t3 u by (intro mult_left_mono) simp_all
    ultimately show ?thesis by linarith
  qed
  have bM: "\<bar>b * M\<bar> \<le> 3 * M"
  proof -
    have "\<bar>b * M\<bar> = \<bar>b\<bar> * M" using M0 by (simp add: abs_mult)
    also have "\<dots> \<le> 3 * M" using b3 M0 by (intro mult_right_mono) simp_all
    finally show ?thesis .
  qed
  define e7 where "e7 = c - b * M"
  have uM: "0 \<le> u * M" "u * M \<le> M / 1000"
    using u u1 M0 mult_right_mono[of u "1 / 1000" M] by simp_all
  have e7: "\<bar>e7\<bar> \<le> 3 * (u * M) + eta"
  proof -
    have "\<bar>e7\<bar> \<le> u * \<bar>b * M\<bar> + eta" using E[of "b * M"] by (simp add: e7_def c)
    moreover have "u * \<bar>b * M\<bar> \<le> u * (3 * M)" using bM u by (intro mult_left_mono) simp_all
    ultimately show ?thesis by linarith
  qed
  have etaM: "eta \<le> u * M"
  proof -
    have "u * 1 \<le> u * M" using u M(1) by (intro mult_left_mono) simp_all
    then show ?thesis using eta(2) by simp
  qed
  have c4: "\<bar>c\<bar> \<le> 4 * M" using e7 bM uM etaM by (simp add: e7_def abs_le_iff)
  have sc: "\<bar>6 + M - c\<bar> \<le> 11 * M" using c4 M(1) by (simp add: abs_le_iff)
  define e8 where "e8 = y' - (6 + M - c)"
  have e8: "\<bar>e8\<bar> \<le> 11 * (u * M) + eta"
  proof -
    have "\<bar>e8\<bar> \<le> u * \<bar>6 + M - c\<bar> + eta" using E[of "6 + M - c"] by (simp add: e8_def y')
    moreover have "u * \<bar>6 + M - c\<bar> \<le> u * (11 * M)" using sc u by (intro mult_left_mono) simp_all
    ultimately show ?thesis by linarith
  qed
  have y12: "\<bar>y'\<bar> \<le> 12 * M" using e8 sc uM etaM by (simp add: e8_def abs_le_iff)
  define X2 where "X2 = e2 * M"
  define X6 where "X6 = e6 * M"
  define X5 where "X5 = (e0 + e3 - e4 - e5) * M / R"
  have X2: "\<bar>X2\<bar> \<le> 2 * (u * M)"
  proof -
    have "\<bar>X2\<bar> = \<bar>e2\<bar> * M" using M0 by (simp add: X2_def abs_mult)
    also have "\<dots> \<le> (u + eta) * M" using e2 M0 by (intro mult_right_mono) simp_all
    also have "\<dots> \<le> (u + u) * M" using eta M0 by (intro mult_right_mono) simp_all
    finally show ?thesis by (simp add: algebra_simps)
  qed
  have X6: "\<bar>X6\<bar> \<le> 4 * (u * M)"
  proof -
    have "\<bar>X6\<bar> = \<bar>e6\<bar> * M" using M0 by (simp add: X6_def abs_mult)
    also have "\<dots> \<le> (3 * u + eta) * M" using e6 M0 by (intro mult_right_mono) simp_all
    also have "\<dots> \<le> (3 * u + u) * M" using eta M0 by (intro mult_right_mono) simp_all
    finally show ?thesis by (simp add: algebra_simps)
  qed
  have X5: "\<bar>X5\<bar> \<le> 3080 * (u * M)"
  proof -
    have "\<bar>e0 + e3 - e4 - e5\<bar> \<le> 3 * (u * h) + 4 * (u * R) + 3 * eta"
      using e0 e3 e4 e5 by (simp add: abs_le_iff)
    also have "\<dots> \<le> 3080 * (u * R)" using uhR R(4) uR(1) by linarith
    also have "\<dots> = (3080 * u) * R" by simp
    finally have "\<bar>e0 + e3 - e4 - e5\<bar> / R \<le> 3080 * u" using R(2) by (simp add: field_simps)
    then have "\<bar>e0 + e3 - e4 - e5\<bar> / R * M \<le> 3080 * u * M"
      using M0 by (intro mult_right_mono) simp_all
    moreover have "\<bar>X5\<bar> = \<bar>e0 + e3 - e4 - e5\<bar> / R * M"
      using R(2) M0 by (simp add: X5_def abs_mult)
    ultimately show ?thesis by (simp add: algebra_simps)
  qed
  have ident: "y' - y = e1 + X2 + X5 - X6 - e7 + e8"
    using R(2) M0
    by (simp add: e0_def e1_def e2_def e3_def e4_def e5_def e6_def e7_def e8_def X2_def X5_def
        X6_def t_def q_def D_def field_simps)
  show "0 \<le> d \<and> d \<le> M" "0 \<le> e \<and> e \<le> 1" "0 \<le> f \<and> f \<le> 3 * h" "\<bar>p\<bar> \<le> 3 * h"
    "\<bar>a\<bar> \<le> 3 * R" "\<bar>b\<bar> \<le> 3" "\<bar>c\<bar> \<le> 4 * M" "\<bar>y'\<bar> \<le> 12 * M" "R \<le> 2 * h"
    using d01 e01 f0 f3 p3 a3 b3 c4 y12 Rh by (simp_all add: abs_le_iff)
  have "\<bar>y' - y\<bar> \<le> 3104 * (u * M)"
    using e1 X2 X5 X6 e7 e8 etaM unfolding ident by linarith
  then show "\<bar>y' - y\<bar> \<le> 4096 * u * M" using uM by linarith
qed

text \<open>
  In binary64 arithmetic, for every non-empty list of plotted prices that are finite and
  between \<open>2^-1000\<close> and \<open>2^1000\<close>, every plot height from 1 to \<open>2^31\<close> pixels and every
  pixel \<open>y\<close> from \<^verbatim>\<open>topPad\<close> to \<^verbatim>\<open>topPad + mainChartH\<close>, \<^verbatim>\<open>yToPrice(y)\<close> is a finite price
  and \<^verbatim>\<open>priceToY(yToPrice(y))\<close> is finite and differs from \<open>y\<close> by at most
  \<open>mainChartH / 2^41\<close> pixels.
\<close>

theorem pixel_round_trip:
  assumes "rounding rnd" "accurate rnd"
    and "prices \<noteq> []" "list_all normal_price prices"
    and "1 \<le> chartH" "chartH \<le> 2 ^ 31"
    and "priceScale rnd prices = (lo, hi, rng)"
    and "real_of_int topPad \<le> y" "y \<le> real_of_int (topPad + chartH)"
  shows "\<exists>q y'.
           yToPrice rnd chartH hi rng (Fin y) = Fin q \<and>
           priceToY rnd chartH lo rng (Fin q) = Fin y' \<and>
           \<bar>y' - y\<bar> \<le> real_of_int chartH / 2 ^ 41"
proof -
  note r = assms(1)
  obtain l h where s: "priceScale rnd prices = (Fin l, Fin h, Fin (rnd (h - l)))"
    and l0: "0 < l" and lh: "l < h" and hL: "1 / 2 ^ 1000 \<le> h" and hU: "h \<le> 2 ^ 1001"
    and R0: "0 < rnd (h - l)"
    using priceScale_normal[OF assms(1-4)] by blast
  have lo: "lo = Fin l" and hi: "hi = Fin h" and rng: "rng = Fin (rnd (h - l))"
    using s assms(7) by simp_all
  define u :: real where "u = 1 / 2 ^ 53"
  define eta :: real where "eta = 1 / 2 ^ 1075"
  define B :: real where "B = 2 ^ 1023"
  have u: "0 < u" "u \<le> 1 / 2 ^ 20" by (simp_all add: u_def)
  have eta: "0 < eta" "eta \<le> u" by (simp_all add: eta_def u_def)
  have eh: "4 * eta \<le> u * h"
  proof -
    have "4 * eta \<le> u * (1 / 2 ^ 1000)" by (simp add: eta_def u_def)
    also have "\<dots> \<le> u * h" using hL u by (intro mult_left_mono) simp_all
    finally show ?thesis .
  qed
  have E: "\<bar>rnd x - x\<bar> \<le> u * \<bar>x\<bar> + eta" for x
    using accurate_bound[OF assms(2), of x] by (simp add: u_def eta_def)
  define M where "M = real_of_int chartH"
  have M1: "1 \<le> M" using assms(5) by (simp add: M_def)
  have rM: "rnd M = M" "rnd (6 + M) = 6 + M"
    using rounding_int[OF r, of chartH] rounding_int[OF r, of "6 + chartH"] assms(5,6)
    by (simp_all add: M_def)
  have MB: "12 * M \<le> B" using assms(6) by (simp add: M_def B_def)
  have hB: "6 * h \<le> B" "0 < h" using hU l0 lh by (simp_all add: B_def)
  define R where "R = rnd (h - l)"
  have Rp: "0 < R" using R0 by (simp add: R_def)
  have wide: "h \<le> 1024 * R" "eta \<le> u * R"
    using priceScale_wide[OF assms(1-4) s] by (simp_all add: R_def u_def eta_def)
  have yy: "6 \<le> y" "y \<le> 6 + M" using assms(8,9) by (simp_all add: topPad_def M_def)
  define d where "d = rnd (y - 6)"
  define e where "e = rnd (d / M)"
  define f where "f = rnd (e * R)"
  define q where "q = rnd (h - f)"
  define a where "a = rnd (q - l)"
  define b where "b = rnd (a / R)"
  define c where "c = rnd (b * M)"
  define y' where "y' = rnd (6 + M - c)"
  note rt = pixel_trip_real[OF r E u eta eh less_imp_le[OF l0] less_imp_le[OF lh] R_def Rp wide
      M1 rM(1) yy d_def e_def f_def q_def a_def b_def c_def y'_def]
  have FIN: "fin rnd x = Fin (rnd x)" if "\<bar>rnd x\<bar> \<le> B" for x
    using that by (intro fin_Fin) (simp_all add: B_def)
  have B1: "3 \<le> B" using MB M1 by linarith
  have "\<bar>d\<bar> \<le> B" using rt(1) MB by linarith
  then have fd: "fin rnd (y - 6) = Fin d" using FIN[of "y - 6"] by (simp add: d_def)
  have "\<bar>e\<bar> \<le> B" using rt(2) B1 by linarith
  then have fe: "fin rnd (d / M) = Fin e" using FIN[of "d / M"] by (simp add: e_def)
  have "\<bar>f\<bar> \<le> B" using rt(3) hB by linarith
  then have ff: "fin rnd (e * R) = Fin f" using FIN[of "e * R"] by (simp add: f_def)
  have "\<bar>q\<bar> \<le> B" using rt(4) hB by linarith
  then have fq: "fin rnd (h - f) = Fin q" using FIN[of "h - f"] by (simp add: q_def)
  have "\<bar>a\<bar> \<le> B" using rt(5,9) hB by linarith
  then have fa: "fin rnd (q - l) = Fin a" using FIN[of "q - l"] by (simp add: a_def)
  have "\<bar>b\<bar> \<le> B" using rt(6) B1 by linarith
  then have fb: "fin rnd (a / R) = Fin b" using FIN[of "a / R"] by (simp add: b_def)
  have "\<bar>c\<bar> \<le> B" using rt(7) MB M1 by linarith
  then have fc: "fin rnd (b * M) = Fin c" using FIN[of "b * M"] by (simp add: c_def)
  have "\<bar>6 + M\<bar> \<le> B" using MB M1 by linarith
  then have fs: "fin rnd (6 + M) = Fin (6 + M)" using FIN[of "6 + M"] rM by simp
  have "\<bar>y'\<bar> \<le> B" using rt(8) MB by linarith
  then have fy: "fin rnd (6 + M - c) = Fin y'" using FIN[of "6 + M - c"] by (simp add: y'_def)
  have M0: "M \<noteq> 0" using M1 by simp
  have Q: "yToPrice rnd chartH hi rng (Fin y) = Fin q"
    using M0 by (simp add: yToPrice_def hi rng topPad_def jsub_def R_def[symmetric] M_def[symmetric]
        fd fe ff fq)
  have Y: "priceToY rnd chartH lo rng (Fin q) = Fin y'"
    using Rp by (simp add: priceToY_def lo rng topPad_def jsub_def R_def[symmetric] M_def[symmetric]
        fa fb fc fs fy)
  have bound: "\<bar>y' - y\<bar> \<le> real_of_int chartH / 2 ^ 41"
  proof -
    have "4096 * u = 1 / 2 ^ 41" by (simp add: u_def)
    then have "4096 * u * M = M / 2 ^ 41" by (simp only: times_divide_eq_left mult_1)
    then show ?thesis using rt(10) by (simp only: M_def)
  qed
  show ?thesis using Q Y bound by blast
qed

text \<open>
  One candle with high 110 and low 90, the current price 105, the standard layout and
  the pixel 162, in exact arithmetic.
\<close>

theorem pixel_round_trip_witness:
  "rounding id \<and> accurate id \<and>
   [Fin 110, Fin 90, Fin 105] \<noteq> [] \<and> list_all normal_price [Fin 110, Fin 90, Fin 105] \<and>
   1 \<le> mainChartH 368 0 \<and> mainChartH 368 0 \<le> 2 ^ 31 \<and>
   priceScale id [Fin 110, Fin 90, Fin 105] =
     (Fin (8991 / 100), Fin (11011 / 100), Fin (101 / 5)) \<and>
   real_of_int topPad \<le> 162 \<and> (162::real) \<le> real_of_int (topPad + mainChartH 368 0) \<and>
   yToPrice id (mainChartH 368 0) (Fin (11011 / 100)) (Fin (101 / 5)) (Fin 162) =
     Fin (10001 / 100) \<and>
   priceToY id (mainChartH 368 0) (Fin (8991 / 100)) (Fin (101 / 5)) (Fin (10001 / 100)) =
     Fin 162"
proof -
  have ne: "[Fin 110, Fin 90, Fin 105] \<noteq> []" by simp
  have np: "list_all normal_price [Fin 110, Fin 90, Fin 105]" by simp
  have m: "mainChartH 368 0 = 312" by (simp add: mainChartH_def topPad_def)
  have c: "1 \<le> mainChartH 368 0" "mainChartH 368 0 \<le> 2 ^ 31" by (simp_all add: m)
  have s: "priceScale id [Fin 110, Fin 90, Fin 105] =
      (Fin (8991 / 100), Fin (11011 / 100), Fin (101 / 5))"
    by (simp add: priceScale_def Math_max_def Math_min_def jsub_def fin_id_small Let_def)
  have y: "real_of_int topPad \<le> 162" "(162::real) \<le> real_of_int (topPad + mainChartH 368 0)"
    by (simp_all add: m topPad_def)
  have q: "yToPrice id (mainChartH 368 0) (Fin (11011 / 100)) (Fin (101 / 5)) (Fin 162) =
      Fin (10001 / 100)"
    by (simp add: m yToPrice_def topPad_def jsub_def fin_id_small)
  have p: "priceToY id (mainChartH 368 0) (Fin (8991 / 100)) (Fin (101 / 5)) (Fin (10001 / 100)) =
      Fin 162"
    by (simp add: m priceToY_def topPad_def jsub_def fin_id_small)
  from pixel_round_trip[OF rounding_id accurate_id ne np c s y]
  show ?thesis using rounding_id accurate_id ne np c s y q p by simp
qed

subsection \<open>Navigation\<close>

text \<open>
  From the initial viewport, every sequence of navigation operations, each taken at any
  series length, is defined and leaves the zoom index inside the zoom list and the
  scroll offset at least 0.
\<close>

theorem navigation_keeps_viewport_ok:
  "\<exists>v'. nav_run initial_viewport steps = Some v' \<and> viewport_ok v'"
  by (rule nav_run_ok[OF initial_viewport_ok])

text \<open>
  The scenarios of the specification: \<^verbatim>\<open>scrollBy(+1000000)\<close> on 500 candles with 100
  visible stops at the offset 400; repeated zooming stops at the ends of the zoom list.
\<close>

theorem scrollBy_clamps_to_maxOffset:
  "nav_step 500 \<lparr>zoomIndex = 4, scrollOffset = 0\<rparr> (ScrollBy 1000000) =
     Some \<lparr>zoomIndex = 4, scrollOffset = 400\<rparr> \<and>
   nav_run initial_viewport
     [(500, ZoomIn), (500, ZoomIn), (500, ZoomIn), (500, ZoomIn), (500, ZoomIn)] =
     Some \<lparr>zoomIndex = 0, scrollOffset = 0\<rparr> \<and>
   nav_run initial_viewport [(500, ZoomOut), (500, ZoomOut), (500, ZoomOut)] =
     Some \<lparr>zoomIndex = 6, scrollOffset = 0\<rparr>"
  by (simp add: nav_step_def visibleCount_def ZOOM_LEVELS_def maxOffset_def initial_viewport_def)

end
